theory Spec2Isabelle
  imports Main "HOL-Library.Sublist"
begin

section \<open>The connection store (plugin/src/connection-store.ts)\<close>

subsection \<open>Data model\<close>

text \<open>
  Field names follow the source. Where two interfaces of the source share a field name
  (\<open>url\<close>, \<open>title\<close>, \<open>requestId\<close>, ...) or a name is taken in HOL (\<open>id\<close>), the name is
  suffixed with the interface it belongs to. JavaScript numbers that hold timestamps or
  tab ids are integers here; strings are \<open>string\<close>; an optional field is an \<open>option\<close>.
\<close>

record PageContext =
  url :: string
  title :: string
  selectedText :: "string option"
  visibleText :: "string option"
  meta :: "(string \<times> string) list option"
  timestamp :: int

text \<open>
  \<open>ws\<close> is a reference to a socket object that the store does not own; it is modelled as
  the socket's number, and the socket's \<open>readyState\<close> lives in the runtime state below.
\<close>

record TabConnection =
  id_conn :: string
  tabId :: int
  url_conn :: string
  title_conn :: string
  ws :: nat
  connectedAt :: int
  lastActivity :: int
  context_conn :: "PageContext option"

text \<open>
  A further field of a command (\<open>[key: string]: unknown\<close>): a value that \<open>JSON.stringify\<close>
  writes, kept as its JSON text, or a value on which \<open>JSON.stringify\<close> raises a
  \<open>TypeError\<close> (a BigInt, an object that contains itself), kept as the error's message.
\<close>

datatype field_value = Serializable string | Unserializable string

record PincerCommand =
  type_cmd :: string
  requestId :: string
  extra :: "(string \<times> field_value) list"

text \<open>
  The failures of a \<open>sendCommand\<close>. The four of the store are \<open>Error\<close> objects told apart
  by their message: \<open>Connection not found: <id>\<close>, \<open>Connection not open: <id>\<close>,
  \<open>Command timeout\<close> and \<open>Connection closed\<close>. The fifth is the \<open>TypeError\<close> that
  \<open>JSON.stringify\<close> raises inside the executor of the promise.
\<close>

datatype error =
    ConnectionNotFound string
  | ConnectionNotOpen string
  | CommandTimeout
  | ConnectionClosed
  | TypeError string

text \<open>
  A value of type \<open>unknown\<close>: the payload of an inbound message and the result of a
  command. The branches of the socket handler cast it to a \<open>PageContext\<close> or to
  \<open>{text}\<close>; any other value is kept as its JSON text.
\<close>

datatype payload =
    ContextPayload PageContext
  | SelectionPayload string
  | OtherPayload string

text \<open>
  What a continuation of a suspended \<open>sendCommand\<close> is called with: \<open>resolve(value)\<close> or
  \<open>reject(error)\<close>.
\<close>

datatype outcome = Resolved payload | Rejected error

text \<open>
  An entry of \<open>pendingCommands\<close>: \<open>{resolve, reject, timeout}\<close>. \<open>resolve\<close> and \<open>reject\<close> are
  the two resolving functions of one promise, which is modelled by the promise's number;
  \<open>timeout\<close> is the handle returned by \<open>setTimeout\<close>.
\<close>

record pending =
  promise :: nat
  timeout :: nat

text \<open>
  An armed timer of the runtime. The only timers of the store are the ones armed by
  \<open>sendCommand\<close>; the callback's closure holds the full request id and the promise's
  \<open>reject\<close>.
\<close>

record timer =
  due :: nat
  key_timer :: string
  reject_timer :: nat

text \<open>
  A context handler is an external subscriber: it is called with the connection and the
  context and either returns or raises. What else a handler does lies outside the
  store: a handler that changed the connection it is given, or called the store, is
  not modelled.
\<close>

datatype handler_result = Returned | Raised string

type_synonym handler = "TabConnection \<Rightarrow> PageContext \<Rightarrow> handler_result"

text \<open>
  A JavaScript \<open>Map\<close> iterates in insertion order, and \<open>set\<close> on a key that is present
  keeps the key's position. The maps of the store are association lists with these
  operations.
\<close>

fun map_set :: "'k \<Rightarrow> 'v \<Rightarrow> ('k \<times> 'v) list \<Rightarrow> ('k \<times> 'v) list" where
  "map_set k v [] = [(k, v)]"
| "map_set k v (e # m) = (if fst e = k then (k, v) # m else e # map_set k v m)"

definition map_get :: "('k \<times> 'v) list \<Rightarrow> 'k \<Rightarrow> 'v option" where
  "map_get m k = map_of m k"

definition map_delete :: "'k \<Rightarrow> ('k \<times> 'v) list \<Rightarrow> ('k \<times> 'v) list" where
  "map_delete k m = filter (\<lambda>e. fst e \<noteq> k) m"

text \<open>
  The state: the three closure variables of \<open>createConnectionStore\<close> (\<open>connections\<close>,
  \<open>pendingCommands\<close>, \<open>contextHandlers\<close>) and the part of the runtime the store acts on:
  the clock read by \<open>Date.now()\<close>, the armed timers, the counters that number timers and
  promises, the calls made to the continuations of suspended \<open>sendCommand\<close>s, with the
  rejection by an executor that raises (in order: a promise is settled by the first
  call for it), the \<open>readyState\<close> of every socket, the
  frames handed to \<open>ws.send\<close>, the calls made to context handlers and the lines written
  by \<open>console.error\<close>.
\<close>

record world =
  connections :: "(string \<times> TabConnection) list"
  pendingCommands :: "(string \<times> pending) list"
  contextHandlers :: "handler list"
  now :: nat
  timers :: "(nat \<times> timer) list"
  nextTimer :: nat
  nextPromise :: nat
  settled :: "(nat \<times> outcome) list"
  readyState :: "nat \<Rightarrow> nat"
  sent :: "(nat \<times> PincerCommand) list"
  handlerCalls :: "(nat \<times> TabConnection \<times> PageContext \<times> handler_result) list"
  console :: "string list"

definition createConnectionStore :: "nat \<Rightarrow> (nat \<Rightarrow> nat) \<Rightarrow> world" where
  "createConnectionStore t rs =
     \<lparr>connections = [], pendingCommands = [], contextHandlers = [], now = t, timers = [],
      nextTimer = 0, nextPromise = 0, settled = [], readyState = rs, sent = [],
      handlerCalls = [], console = []\<rparr>"

subsection \<open>Operations\<close>

definition add :: "world \<Rightarrow> TabConnection \<Rightarrow> world" where
  "add w conn = w\<lparr>connections := map_set (id_conn conn) conn (connections w)\<rparr>"

definition get :: "world \<Rightarrow> string \<Rightarrow> TabConnection option" where
  "get w i = map_get (connections w) i"

text \<open>\<open>list\<close> of the source; the name \<open>list\<close> is the list type's in HOL.\<close>

definition list_conns :: "world \<Rightarrow> TabConnection list" where
  "list_conns w = map snd (connections w)"

fun getByTabId_loop :: "TabConnection list \<Rightarrow> int \<Rightarrow> TabConnection option" where
  "getByTabId_loop [] t = None"
| "getByTabId_loop (conn # cs) t = (if tabId conn = t then Some conn else getByTabId_loop cs t)"

definition getByTabId :: "world \<Rightarrow> int \<Rightarrow> TabConnection option" where
  "getByTabId w t = getByTabId_loop (map snd (connections w)) t"

text \<open>
  \<open>getActive\<close>: the loop over \<open>connections.values()\<close> with its two variables \<open>active\<close>
  (initially \<open>undefined\<close>) and \<open>maxActivity\<close> (initially 0).
\<close>

fun getActive_loop :: "TabConnection list \<Rightarrow> TabConnection option \<Rightarrow> int \<Rightarrow> TabConnection option" where
  "getActive_loop [] active maxActivity = active"
| "getActive_loop (conn # cs) active maxActivity =
     (if lastActivity conn > maxActivity
      then getActive_loop cs (Some conn) (lastActivity conn)
      else getActive_loop cs active maxActivity)"

definition getActive :: "world \<Rightarrow> TabConnection option" where
  "getActive w = getActive_loop (map snd (connections w)) None 0"

text \<open>
  \<open>JSON.stringify(command)\<close> writes the fields in order; \<open>type\<close> and \<open>requestId\<close> are
  strings, so it raises exactly when a further field cannot be written, with the error
  of the first such field.
\<close>

fun stringify_error :: "(string \<times> field_value) list \<Rightarrow> string option" where
  "stringify_error [] = None"
| "stringify_error (f # fs) =
     (case snd f of Serializable s \<Rightarrow> stringify_error fs | Unserializable m \<Rightarrow> Some m)"

text \<open>
  \<open>sendCommand\<close>: the two guards raise; otherwise the executor of the new promise arms the
  timer, stores the pending entry under \<open>`${id}:${command.requestId}`\<close> and sends the
  command. When \<open>JSON.stringify\<close> raises there, the executor ends with the exception:
  the promise is rejected with it at once, nothing is sent, and the timer and the
  pending entry stay as they were set. The result is the failure of a guard, or the
  number of the promise the caller awaits. \<open>send\<close> on the open socket is taken not to
  raise.
\<close>

definition fullId :: "string \<Rightarrow> string \<Rightarrow> string" where
  "fullId i r = i @ '':'' @ r"

definition sendCommand :: "world \<Rightarrow> string \<Rightarrow> PincerCommand \<Rightarrow> (error + nat) \<times> world" where
  "sendCommand w i command =
     (case map_get (connections w) i of
        None \<Rightarrow> (Inl (ConnectionNotFound i), w)
      | Some conn \<Rightarrow>
          if readyState w (ws conn) \<noteq> 1 then (Inl (ConnectionNotOpen i), w)
          else
            let p = nextPromise w;
                h = nextTimer w;
                k = fullId i (requestId command);
                w1 = w\<lparr>nextPromise := Suc p,
                       nextTimer := Suc h,
                       timers := timers w @ [(h, \<lparr>due = now w + 30000, key_timer = k, reject_timer = p\<rparr>)],
                       pendingCommands := map_set k \<lparr>promise = p, timeout = h\<rparr> (pendingCommands w)\<rparr>
            in case stringify_error (extra command) of
                 None \<Rightarrow> (Inr p, w1\<lparr>sent := sent w @ [(ws conn, command)]\<rparr>)
               | Some m \<Rightarrow> (Inr p, w1\<lparr>settled := settled w @ [(p, Rejected (TypeError m))]\<rparr>))"

text \<open>
  \<open>remove\<close>: when the connection is present it is deleted, and the loop over
  \<open>pendingCommands\<close> clears the timer of, rejects and deletes every entry whose key
  \<open>startsWith(id)\<close>. Deleting the current entry of a \<open>Map\<close> during its iteration neither
  skips nor repeats an entry, so the loop runs over the entries present at its start.
\<close>

fun remove_loop :: "string \<Rightarrow> (string \<times> pending) list \<Rightarrow> world \<Rightarrow> world" where
  "remove_loop i [] w = w"
| "remove_loop i (e # es) w =
     (if prefix i (fst e)
      then remove_loop i es
             (w\<lparr>timers := map_delete (timeout (snd e)) (timers w),
                settled := settled w @ [(promise (snd e), Rejected ConnectionClosed)],
                pendingCommands := map_delete (fst e) (pendingCommands w)\<rparr>)
      else remove_loop i es w)"

definition remove :: "world \<Rightarrow> string \<Rightarrow> world" where
  "remove w i =
     (case map_get (connections w) i of
        None \<Rightarrow> w
      | Some conn \<Rightarrow>
          let w1 = w\<lparr>connections := map_delete i (connections w)\<rparr>
          in remove_loop i (pendingCommands w1) w1)"

text \<open>
  \<open>updateContext\<close>: the four assignments to the connection object (which stays at its
  place in the map), then the loop over \<open>contextHandlers\<close> with its \<open>try\<close>/\<open>catch\<close>. Every
  call of a handler is recorded with the handler's position in \<open>contextHandlers\<close>.
\<close>

fun notify :: "nat \<Rightarrow> handler list \<Rightarrow> TabConnection \<Rightarrow> PageContext \<Rightarrow> world \<Rightarrow> world" where
  "notify n [] conn c w = w"
| "notify n (h # hs) conn c w =
     (case h conn c of
        Returned \<Rightarrow>
          notify (Suc n) hs conn c (w\<lparr>handlerCalls := handlerCalls w @ [(n, conn, c, Returned)]\<rparr>)
      | Raised err \<Rightarrow>
          notify (Suc n) hs conn c
            (w\<lparr>handlerCalls := handlerCalls w @ [(n, conn, c, Raised err)],
               console := console w @ [''[Pincer] Context handler error: '' @ err]\<rparr>))"

definition assign_context :: "TabConnection \<Rightarrow> PageContext \<Rightarrow> nat \<Rightarrow> TabConnection" where
  "assign_context conn c t =
     conn\<lparr>context_conn := Some c, lastActivity := int t, url_conn := url c, title_conn := title c\<rparr>"

definition updateContext :: "world \<Rightarrow> string \<Rightarrow> PageContext \<Rightarrow> world" where
  "updateContext w i c =
     (case map_get (connections w) i of
        None \<Rightarrow> w
      | Some conn \<Rightarrow>
          let conn' = assign_context conn c (now w)
          in notify 0 (contextHandlers w) conn' c
               (w\<lparr>connections := map_set i conn' (connections w)\<rparr>))"

definition onContextUpdate :: "world \<Rightarrow> handler \<Rightarrow> world" where
  "onContextUpdate w h = w\<lparr>contextHandlers := contextHandlers w @ [h]\<rparr>"

text \<open>
  The object returned by \<open>createConnectionStore\<close> is an object literal with exactly these
  properties; \<open>connections\<close>, \<open>pendingCommands\<close> and \<open>contextHandlers\<close> are variables of the
  enclosing function, not properties of the object.
\<close>

definition store_properties :: "string list" where
  "store_properties =
     [''add'', ''remove'', ''get'', ''getByTabId'', ''list'', ''updateContext'',
      ''getActive'', ''sendCommand'', ''onContextUpdate'']"

text \<open>
  \<open>(store as any).pendingCommands\<close>: reading a property that the object does not have
  gives \<open>undefined\<close>.
\<close>

definition store_pendingCommands :: "world \<Rightarrow> (string \<times> pending) list option" where
  "store_pendingCommands w =
     (if ''pendingCommands'' \<in> set store_properties then Some (pendingCommands w) else None)"

text \<open>
  \<open>handleCommandResult\<close>: \<open>?.get(fullId)\<close> on \<open>undefined\<close> is \<open>undefined\<close>, and so is the
  lookup of a key that is absent; then the body of \<open>if (pending)\<close> is skipped.
\<close>

definition handleCommandResult :: "world \<Rightarrow> string \<Rightarrow> string \<Rightarrow> payload \<Rightarrow> world" where
  "handleCommandResult w connId requestId_res result =
     (let k = fullId connId requestId_res
      in case store_pendingCommands w of
           None \<Rightarrow> w
         | Some pc \<Rightarrow>
             (case map_get pc k of
                None \<Rightarrow> w
              | Some pe \<Rightarrow>
                  w\<lparr>timers := map_delete (timeout pe) (timers w),
                    settled := settled w @ [(promise pe, Resolved result)],
                    pendingCommands := map_delete k (pendingCommands w)\<rparr>))"

subsection \<open>The runtime: time and sockets\<close>

text \<open>
  The callback that \<open>sendCommand\<close> hands to \<open>setTimeout\<close>: it deletes the pending entry of
  its request id and rejects its promise. A timer that fires is no longer armed.
\<close>

definition timeout_callback :: "timer \<Rightarrow> world \<Rightarrow> world" where
  "timeout_callback t w =
     w\<lparr>pendingCommands := map_delete (key_timer t) (pendingCommands w),
       settled := settled w @ [(reject_timer t, Rejected CommandTimeout)]\<rparr>"

fun fire_due :: "(nat \<times> timer) list \<Rightarrow> world \<Rightarrow> world" where
  "fire_due [] w = w"
| "fire_due (e # ts) w =
     (if due (snd e) \<le> now w
      then fire_due ts (timeout_callback (snd e) (w\<lparr>timers := map_delete (fst e) (timers w)\<rparr>))
      else fire_due ts w)"

text \<open>
  \<open>advance w d\<close>: \<open>d\<close> milliseconds pass and the runtime runs every timer that is due, in
  the order in which the timers were armed (all delays are equal, so this is the order
  of their deadlines). The callbacks neither arm nor clear a timer, so the timers that
  run are the due ones among those armed when the time has passed. A timer runs as
  soon as it is due: what happens between two deadlines is told by two steps of time
  with the events between them.
\<close>

definition advance :: "world \<Rightarrow> nat \<Rightarrow> world" where
  "advance w d = (let w1 = w\<lparr>now := now w + d\<rparr> in fire_due (timers w1) w1)"

definition setReadyState :: "world \<Rightarrow> nat \<Rightarrow> nat \<Rightarrow> world" where
  "setReadyState w s r = w\<lparr>readyState := (readyState w)(s := r)\<rparr>"

text \<open>What can happen to a store between two moments, and a run of such events.\<close>

datatype event =
    Add TabConnection
  | Remove string
  | UpdateContext string PageContext
  | OnContextUpdate handler
  | SendCommand string PincerCommand
  | CommandResult string string payload
  | Advance nat
  | SetReadyState nat nat

fun step :: "world \<Rightarrow> event \<Rightarrow> world" where
  "step w (Add conn) = add w conn"
| "step w (Remove i) = remove w i"
| "step w (UpdateContext i c) = updateContext w i c"
| "step w (OnContextUpdate h) = onContextUpdate w h"
| "step w (SendCommand i command) = snd (sendCommand w i command)"
| "step w (CommandResult i r result) = handleCommandResult w i r result"
| "step w (Advance d) = advance w d"
| "step w (SetReadyState s r) = setReadyState w s r"

definition run :: "world \<Rightarrow> event list \<Rightarrow> world" where
  "run w evs = foldl step w evs"

text \<open>The calls made so far to the continuations of promise \<open>p\<close>, in order.\<close>

definition calls :: "world \<Rightarrow> nat \<Rightarrow> outcome list" where
  "calls w p = map snd (filter (\<lambda>e. fst e = p) (settled w))"

text \<open>
  The bookkeeping of the runtime that every state reached from a new store satisfies:
  the handles of the armed timers are distinct and below \<open>nextTimer\<close>, the promises they
  reject are distinct and below \<open>nextPromise\<close>, every pending entry has its timer armed
  (with the entry's key and promise), and every call made so far was for a promise
  below \<open>nextPromise\<close>.
\<close>

definition consistent :: "world \<Rightarrow> bool" where
  "consistent w \<longleftrightarrow>
     distinct (map fst (timers w)) \<and>
     distinct (map (\<lambda>e. reject_timer (snd e)) (timers w)) \<and>
     (\<forall>e\<in>set (timers w). fst e < nextTimer w \<and> reject_timer (snd e) < nextPromise w) \<and>
     (\<forall>e\<in>set (pendingCommands w).
        \<exists>t. (timeout (snd e), t) \<in> set (timers w) \<and> key_timer t = fst e \<and>
            reject_timer t = promise (snd e)) \<and>
     (\<forall>e\<in>set (settled w). fst e < nextPromise w)"

text \<open>Two states with the same requests: timers, pending entries, calls, clock and counters.\<close>

definition same_requests :: "world \<Rightarrow> world \<Rightarrow> bool" where
  "same_requests w w' \<longleftrightarrow>
     timers w' = timers w \<and> pendingCommands w' = pendingCommands w \<and> settled w' = settled w \<and>
     now w' = now w \<and> nextTimer w' = nextTimer w \<and> nextPromise w' = nextPromise w"

text \<open>
  \<open>cancels k ev\<close>: the event removes a connection whose id is a prefix of the key \<open>k\<close>.
  \<open>elapsed evs\<close>: the time that passes during the events.
\<close>

fun cancels :: "string \<Rightarrow> event \<Rightarrow> bool" where
  "cancels k (Remove j) = prefix j k"
| "cancels k _ = False"

fun elapsed :: "event list \<Rightarrow> nat" where
  "elapsed [] = 0"
| "elapsed (Advance d # evs) = d + elapsed evs"
| "elapsed (_ # evs) = elapsed evs"

text \<open>
  The request of promise \<open>p\<close> is outstanding (its timer \<open>h\<close> is armed for time \<open>D\<close> under key
  \<open>k\<close>, and no call was made for \<open>p\<close>), and it is over (no armed timer rejects \<open>p\<close>).
\<close>

definition outstanding :: "world \<Rightarrow> nat \<Rightarrow> nat \<Rightarrow> string \<Rightarrow> nat \<Rightarrow> bool" where
  "outstanding w h p k D \<longleftrightarrow>
     consistent w \<and> (h, \<lparr>due = D, key_timer = k, reject_timer = p\<rparr>) \<in> set (timers w) \<and>
     p \<notin> set (map fst (settled w)) \<and> now w < D"

definition over :: "world \<Rightarrow> nat \<Rightarrow> bool" where
  "over w p \<longleftrightarrow>
     consistent w \<and> p < nextPromise w \<and> p \<notin> set (map (\<lambda>e. reject_timer (snd e)) (timers w))"

section \<open>The socket handler (plugin/src/ws-handler.ts)\<close>

text \<open>
  An inbound message. \<open>payload\<close> is cast by the branch that reads it: to a \<open>PageContext\<close>
  for \<open>page_context\<close>, to \<open>{text}\<close> for \<open>selection\<close>; a \<open>command_result\<close> passes it on as
  it is.
\<close>

record PincerMessage =
  type_msg :: string
  tabId_msg :: int
  url_msg :: string
  timestamp_msg :: int
  requestId_msg :: "string option"
  payload_msg :: payload

text \<open>
  The cast \<open>message.payload as PageContext\<close>. A payload of another shape has none of the
  fields read; the fields are then empty here.
\<close>

fun as_PageContext :: "payload \<Rightarrow> PageContext" where
  "as_PageContext (ContextPayload c) = c"
| "as_PageContext _ =
     \<lparr>url = [], title = [], selectedText = None, visibleText = None, meta = None, timestamp = 0\<rparr>"

text \<open>
  The variables of one call of \<open>handleUpgrade\<close>, that is of one socket connection: the
  generated \<open>connId\<close>, the socket \<open>ws\<close> and the variable \<open>tabId\<close>, initially \<open>undefined\<close>.
\<close>

record handler_state =
  connId :: string
  ws_handler :: nat
  tabId_var :: "int option"

definition handleUpgrade :: "string \<Rightarrow> nat \<Rightarrow> handler_state" where
  "handleUpgrade i s = \<lparr>connId = i, ws_handler = s, tabId_var = None\<rparr>"

text \<open>Truthiness of a number and of a variable that is a number or \<open>undefined\<close>.\<close>

definition truthy :: "int \<Rightarrow> bool" where
  "truthy n = (n \<noteq> 0)"

fun truthy_opt :: "int option \<Rightarrow> bool" where
  "truthy_opt None = False"
| "truthy_opt (Some n) = truthy n"

definition handlePageContext :: "world \<Rightarrow> string \<Rightarrow> PageContext \<Rightarrow> world" where
  "handlePageContext w i c = updateContext w i (c\<lparr>timestamp := int (now w)\<rparr>)"

text \<open>
  \<open>handleMessage\<close>: first the binding of the tab id (\<open>if (message.tabId && !tabId)\<close>), then
  the \<open>switch\<close> on the message type. The branches \<open>connect\<close>, \<open>selection\<close>, \<open>screenshot\<close>,
  \<open>dom_snapshot\<close> and \<open>default\<close> only write to the optional logger and leave the state
  as it is.
\<close>

definition bindTab :: "handler_state \<times> world \<Rightarrow> PincerMessage \<Rightarrow> handler_state \<times> world" where
  "bindTab hw message =
     (if truthy (tabId_msg message) \<and> \<not> truthy_opt (tabId_var (fst hw))
      then (fst hw\<lparr>tabId_var := Some (tabId_msg message)\<rparr>,
            add (snd hw)
              \<lparr>id_conn = connId (fst hw),
               tabId = tabId_msg message,
               url_conn = (if url_msg message \<noteq> [] then url_msg message else []),
               title_conn = [],
               ws = ws_handler (fst hw),
               connectedAt = int (now (snd hw)),
               lastActivity = int (now (snd hw)),
               context_conn = None\<rparr>)
      else hw)"

definition handleMessage :: "handler_state \<times> world \<Rightarrow> PincerMessage \<Rightarrow> handler_state \<times> world" where
  "handleMessage hw message =
     (let hw1 = bindTab hw message;
          h = fst hw1;
          w = snd hw1;
          t = type_msg message
      in if t = ''connect'' then (h, w)
         else if t = ''disconnect'' then (h, remove w (connId h))
         else if t = ''page_context''
           then (h, handlePageContext w (connId h) (as_PageContext (payload_msg message)))
         else if t = ''selection'' then (h, w)
         else if t = ''command_result''
           then (case requestId_msg message of
                   None \<Rightarrow> (h, w)
                 | Some r \<Rightarrow>
                     if r \<noteq> [] then (h, handleCommandResult w (connId h) r (payload_msg message))
                     else (h, w))
         else (h, w))"

definition handleMessages :: "handler_state \<times> world \<Rightarrow> PincerMessage list \<Rightarrow> handler_state \<times> world" where
  "handleMessages hw ms = foldl handleMessage hw ms"

text \<open>The first tab id that is truthy among the messages, if any.\<close>

fun firstTabId :: "PincerMessage list \<Rightarrow> int option" where
  "firstTabId [] = None"
| "firstTabId (m # ms) = (if truthy (tabId_msg m) then Some (tabId_msg m) else firstTabId ms)"

text \<open>
  The life of one socket connection seen from the store: its inbound messages, and
  between them whatever happens to the store elsewhere (the messages and the closing
  of other sockets and of this one, the calls of the tools, the timers). Connection ids
  are generated per socket, so nothing else adds a connection under this socket's id.
\<close>

datatype socket_event = Inbound PincerMessage | Elsewhere event

fun socket_step :: "handler_state \<times> world \<Rightarrow> socket_event \<Rightarrow> handler_state \<times> world" where
  "socket_step hw (Inbound m) = handleMessage hw m"
| "socket_step hw (Elsewhere ev) = (fst hw, step (snd hw) ev)"

definition socket_run :: "handler_state \<times> world \<Rightarrow> socket_event list \<Rightarrow> handler_state \<times> world" where
  "socket_run hw evs = foldl socket_step hw evs"

fun inbound :: "socket_event list \<Rightarrow> PincerMessage list" where
  "inbound [] = []"
| "inbound (Inbound m # evs) = m # inbound evs"
| "inbound (Elsewhere ev # evs) = inbound evs"

fun adds_under :: "string \<Rightarrow> socket_event \<Rightarrow> bool" where
  "adds_under i (Elsewhere (Add conn)) = (id_conn conn = i)"
| "adds_under i _ = False"

text \<open>
  The invariant of the binding: the registry entry of this socket's connection, when
  there is one, carries the tab id held in the variable, and the variable is either
  \<open>undefined\<close> or truthy. \<open>rebind v ms\<close> is the variable after the messages \<open>ms\<close> when it
  was \<open>v\<close> before.
\<close>

definition binding_ok :: "handler_state \<Rightarrow> world \<Rightarrow> bool" where
  "binding_ok h w \<longleftrightarrow>
     (case get w (connId h) of None \<Rightarrow> True | Some conn \<Rightarrow> tabId_var h = Some (tabId conn)) \<and>
     (case tabId_var h of None \<Rightarrow> True | Some t \<Rightarrow> truthy t)"

definition rebind :: "int option \<Rightarrow> PincerMessage list \<Rightarrow> int option" where
  "rebind v ms = (case v of Some t \<Rightarrow> Some t | None \<Rightarrow> firstTabId ms)"

section \<open>The client connection (src/lib/connection.ts)\<close>

datatype ConnectionStatus = Disconnected | Connecting | Connected | Error

text \<open>The values of \<open>WebSocket.readyState\<close>.\<close>

definition CONNECTING :: nat where
  "CONNECTING = 0"

definition OPEN :: nat where
  "OPEN = 1"

definition CLOSING :: nat where
  "CLOSING = 2"

definition CLOSED :: nat where
  "CLOSED = 3"

text \<open>The calls to the callbacks in \<open>events\<close>, and the lines written to the console.\<close>

datatype notification = OnStatusChange ConnectionStatus | OnError string

datatype log_line =
    LogConnected
  | LogMaxReached
  | LogReconnecting nat nat

text \<open>
  The fields of \<open>GatewayConnection\<close> that the lifecycle uses, and the runtime around it.
  \<open>ws_gw\<close> is \<open>this.ws\<close>: \<open>null\<close>, or a socket, of which only \<open>readyState\<close> is read.
  \<open>config_error\<close> is the exception that \<open>new URL(config.gateway.url)\<close> or
  \<open>new WebSocket(...)\<close> raises for the configured address, if any. \<open>armed\<close> holds the
  timers that are armed (handle and delay), \<open>delays\<close> the delay of every \<open>setTimeout\<close>
  so far. Timer handles of a browser are positive numbers.
\<close>

record GatewayConnection =
  ws_gw :: "nat option"
  config_error :: "string option"
  reconnectTimer :: "nat option"
  reconnectAttempts :: nat
  armed :: "(nat \<times> nat) list"
  nextHandle :: nat
  delays :: "nat list"
  notifications :: "notification list"
  log_gw :: "log_line list"

definition maxReconnectAttempts :: nat where
  "maxReconnectAttempts = 5"

definition reconnectDelay :: nat where
  "reconnectDelay = 1000"

definition newGatewayConnection :: "string option \<Rightarrow> GatewayConnection" where
  "newGatewayConnection e =
     \<lparr>ws_gw = None, config_error = e, reconnectTimer = None, reconnectAttempts = 0,
      armed = [], nextHandle = 1, delays = [], notifications = [], log_gw = []\<rparr>"

definition status :: "GatewayConnection \<Rightarrow> ConnectionStatus" where
  "status c =
     (case ws_gw c of
        None \<Rightarrow> Disconnected
      | Some rs \<Rightarrow>
          if rs = CONNECTING then Connecting
          else if rs = OPEN then Connected
          else Disconnected)"

definition connect :: "GatewayConnection \<Rightarrow> GatewayConnection" where
  "connect c =
     (if ws_gw c = Some OPEN then c
      else
        let c1 = c\<lparr>notifications := notifications c @ [OnStatusChange Connecting]\<rparr>
        in case config_error c of
             None \<Rightarrow> c1\<lparr>ws_gw := Some CONNECTING\<rparr>
           | Some err \<Rightarrow>
               c1\<lparr>notifications := notifications c1 @ [OnStatusChange Error, OnError err]\<rparr>)"

definition scheduleReconnect :: "GatewayConnection \<Rightarrow> GatewayConnection" where
  "scheduleReconnect c =
     (if reconnectAttempts c \<ge> maxReconnectAttempts
      then c\<lparr>log_gw := log_gw c @ [LogMaxReached]\<rparr>
      else
        let delay = reconnectDelay * 2 ^ reconnectAttempts c;
            h = nextHandle c
        in c\<lparr>reconnectAttempts := Suc (reconnectAttempts c),
             log_gw := log_gw c @ [LogReconnecting delay (Suc (reconnectAttempts c))],
             reconnectTimer := Some h,
             armed := armed c @ [(h, delay)],
             nextHandle := Suc h,
             delays := delays c @ [delay]\<rparr>)"

text \<open>The three handlers that \<open>connect\<close> puts on the socket.\<close>

definition onopen :: "GatewayConnection \<Rightarrow> GatewayConnection" where
  "onopen c =
     c\<lparr>reconnectAttempts := 0,
       notifications := notifications c @ [OnStatusChange Connected],
       log_gw := log_gw c @ [LogConnected]\<rparr>"

definition onclose :: "GatewayConnection \<Rightarrow> GatewayConnection" where
  "onclose c = scheduleReconnect (c\<lparr>notifications := notifications c @ [OnStatusChange Disconnected]\<rparr>)"

definition onerror :: "GatewayConnection \<Rightarrow> GatewayConnection" where
  "onerror c =
     c\<lparr>notifications := notifications c @ [OnStatusChange Error, OnError ''WebSocket error'']\<rparr>"

definition disconnect :: "GatewayConnection \<Rightarrow> GatewayConnection" where
  "disconnect c =
     (let c1 = (case reconnectTimer c of
                  None \<Rightarrow> c
                | Some h \<Rightarrow>
                    if h \<noteq> 0 then c\<lparr>armed := map_delete h (armed c), reconnectTimer := None\<rparr>
                    else c)
      in c1\<lparr>reconnectAttempts := maxReconnectAttempts,
            ws_gw := None,
            notifications := notifications c1 @ [OnStatusChange Disconnected]\<rparr>)"

text \<open>
  What the runtime does to the client: the socket in \<open>this.ws\<close> opens, fails or closes
  (the \<open>readyState\<close> changes, then the handler runs), and an armed timer expires and runs
  its callback, which calls \<open>connect\<close>.
\<close>

definition socket_opens :: "GatewayConnection \<Rightarrow> GatewayConnection" where
  "socket_opens c = onopen (c\<lparr>ws_gw := map_option (\<lambda>_. OPEN) (ws_gw c)\<rparr>)"

definition socket_errors :: "GatewayConnection \<Rightarrow> GatewayConnection" where
  "socket_errors c = onerror c"

definition socket_closes :: "GatewayConnection \<Rightarrow> GatewayConnection" where
  "socket_closes c = onclose (c\<lparr>ws_gw := map_option (\<lambda>_. CLOSED) (ws_gw c)\<rparr>)"

definition timer_expires :: "nat \<Rightarrow> GatewayConnection \<Rightarrow> GatewayConnection" where
  "timer_expires h c =
     (case map_get (armed c) h of
        None \<Rightarrow> c
      | Some d \<Rightarrow> connect (c\<lparr>armed := map_delete h (armed c)\<rparr>))"

text \<open>
  One failed automatic attempt: the armed reconnect timer expires, \<open>connect\<close> opens a new
  socket, the socket fails and closes.
\<close>

definition failed_attempt :: "GatewayConnection \<Rightarrow> GatewayConnection" where
  "failed_attempt c =
     (case reconnectTimer c of
        None \<Rightarrow> c
      | Some h \<Rightarrow>
          let c1 = timer_expires h c
          in if ws_gw c1 = Some CONNECTING then socket_closes (socket_errors c1) else c1)"

text \<open>
  The connection closes, and then \<open>n\<close> automatic attempts fail one after the other.
\<close>

primrec after_failures :: "nat \<Rightarrow> GatewayConnection \<Rightarrow> GatewayConnection" where
  "after_failures 0 c = socket_closes c"
| "after_failures (Suc n) c = failed_attempt (after_failures n c)"

text \<open>
  Two situations of the lifecycle. \<open>waiting c n\<close>: \<open>n + 1\<close> reconnects have been scheduled
  since the last successful open, the last one with delay \<open>reconnectDelay * 2 ^ n\<close>, and
  its timer is the only one armed. \<open>stopped c\<close>: the attempts are used up, no timer is
  armed and the status reads \<open>disconnected\<close>. In both the configured address is valid.
\<close>

definition waiting :: "GatewayConnection \<Rightarrow> nat \<Rightarrow> bool" where
  "waiting c n \<longleftrightarrow>
     reconnectAttempts c = Suc n \<and> config_error c = None \<and> ws_gw c \<noteq> Some OPEN \<and>
     reconnectTimer c = Some (nextHandle c - 1) \<and>
     armed c = [(nextHandle c - 1, reconnectDelay * 2 ^ n)]"

definition stopped :: "GatewayConnection \<Rightarrow> bool" where
  "stopped c \<longleftrightarrow>
     reconnectAttempts c = maxReconnectAttempts \<and> config_error c = None \<and> armed c = [] \<and>
     status c = Disconnected"

section \<open>Example states\<close>

text \<open>The connection of the end-to-end scenario: \<open>c1\<close> with tab 7 at \<open>https://a\<close>.\<close>

definition conn_c1 :: TabConnection where
  "conn_c1 =
     \<lparr>id_conn = ''c1'', tabId = 7, url_conn = ''https://a'', title_conn = [], ws = 0,
      connectedAt = 1000, lastActivity = 1000, context_conn = None\<rparr>"

definition conn_c2 :: TabConnection where
  "conn_c2 =
     \<lparr>id_conn = ''c2'', tabId = 8, url_conn = ''https://b'', title_conn = [], ws = 1,
      connectedAt = 2000, lastActivity = 2000, context_conn = None\<rparr>"

definition click_r1 :: PincerCommand where
  "click_r1 = \<lparr>type_cmd = ''click'', requestId = ''r1'', extra = [(''ref'', Serializable ''e3'')]\<rparr>"

text \<open>A new store at time 5000 in which every socket is open, and one in which every socket is closed.\<close>

definition store_open :: world where
  "store_open = createConnectionStore 5000 (\<lambda>_. 1)"

definition store_closed :: world where
  "store_closed = createConnectionStore 5000 (\<lambda>_. 3)"

text \<open>A store whose only connection has \<open>lastActivity = 0\<close>.\<close>

definition store_epoch :: world where
  "store_epoch = add store_open (conn_c1\<lparr>lastActivity := 0\<rparr>)"

text \<open>
  A store with connection \<open>c1\<close> and two context handlers, of which the first raises, and
  a page context.
\<close>

definition store_handlers :: world where
  "store_handlers =
     onContextUpdate (onContextUpdate (add store_open conn_c1) (\<lambda>_ _. Raised ''boom''))
       (\<lambda>_ _. Returned)"

definition ctx_a :: PageContext where
  "ctx_a =
     \<lparr>url = ''https://a/page'', title = ''Page'', selectedText = None, visibleText = None,
      meta = None, timestamp = 4000\<rparr>"

text \<open>
  Messages of a given type and tab id, and a life of a socket: a message with tab id 0,
  one with tab id 7, ten milliseconds, a page context with tab id 9.
\<close>

definition msg :: "string \<Rightarrow> int \<Rightarrow> PincerMessage" where
  "msg t n =
     \<lparr>type_msg = t, tabId_msg = n, url_msg = ''https://a'', timestamp_msg = 0,
      requestId_msg = None, payload_msg = OtherPayload ''null''\<rparr>"

definition socket_events :: "socket_event list" where
  "socket_events =
     [Inbound (msg ''connect'' 0), Inbound (msg ''connect'' 7), Elsewhere (Advance 10),
      Inbound (msg ''page_context'' 9)]"

text \<open>
  The end-to-end scenario: \<open>c1\<close> is registered, the command is sent, and the result
  \<open>{ok:true}\<close> comes back, as a call of \<open>handleCommandResult\<close> and as the inbound message
  that leads to it.
\<close>

definition store_sent :: world where
  "store_sent = snd (sendCommand (add store_open conn_c1) ''c1'' click_r1)"

definition result_ok :: payload where
  "result_ok = OtherPayload ''{ok:true}''"

definition msg_result :: PincerMessage where
  "msg_result =
     \<lparr>type_msg = ''command_result'', tabId_msg = 7, url_msg = ''https://a'', timestamp_msg = 0,
      requestId_msg = Some ''r1'', payload_msg = result_ok\<rparr>"

text \<open>
  What happens while the request waits (29999 ms pass, and a result is delivered), and
  what happens after the timeout (a late result, more time, the removal of \<open>c1\<close>).
\<close>

definition waiting_events :: "event list" where
  "waiting_events = [Advance 10000, CommandResult ''c1'' ''r1'' result_ok, Advance 19999]"

definition late_events :: "event list" where
  "late_events = [CommandResult ''c1'' ''r1'' result_ok, Advance 50000, Remove ''c1'']"

text \<open>
  Two connections of which one id is a prefix of the other, \<open>c1\<close> and \<open>c10\<close>, and a command
  pending for \<open>c10\<close>.
\<close>

definition conn_c10 :: TabConnection where
  "conn_c10 =
     \<lparr>id_conn = ''c10'', tabId = 9, url_conn = ''https://c'', title_conn = [], ws = 2,
      connectedAt = 3000, lastActivity = 3000, context_conn = None\<rparr>"

definition store_prefix :: world where
  "store_prefix = snd (sendCommand (add (add store_open conn_c1) conn_c10) ''c10'' click_r1)"

text \<open>A store with the two connections.\<close>

definition store_two :: world where
  "store_two = add (add store_open conn_c1) conn_c2"

text \<open>A client that has connected once, and the same client at a given attempt counter.\<close>

definition client_connected :: GatewayConnection where
  "client_connected = socket_opens (connect (newGatewayConnection None))"

definition client_attempts :: "nat \<Rightarrow> GatewayConnection" where
  "client_attempts n = client_connected\<lparr>reconnectAttempts := n\<rparr>"

section \<open>Theorems\<close>

subsection \<open>sendCommand: the two guards\<close>

text \<open>
  C4. For every command and every id that is not registered, \<open>sendCommand\<close> fails with
  \<open>ConnectionNotFound\<close>, and for every registered id whose socket is not open (\<open>readyState\<close>
  other than 1) it fails with \<open>ConnectionNotOpen\<close>; in both cases the whole state is
  unchanged, so no pending entry is stored, no timer is armed and nothing is sent.
\<close>

theorem sendCommand_guards:
  "(get w i = None \<longrightarrow> sendCommand w i command = (Inl (ConnectionNotFound i), w)) \<and>
   (get w i = Some conn \<and> readyState w (ws conn) \<noteq> 1 \<longrightarrow>
      sendCommand w i command = (Inl (ConnectionNotOpen i), w))"
  by (simp add: sendCommand_def get_def)

theorem sendCommand_guards_witness:
  "get store_open ''c1'' = None \<and>
   sendCommand store_open ''c1'' click_r1 = (Inl (ConnectionNotFound ''c1''), store_open) \<and>
   get (add store_closed conn_c1) ''c1'' = Some conn_c1 \<and>
   readyState (add store_closed conn_c1) (ws conn_c1) \<noteq> 1 \<and>
   sendCommand (add store_closed conn_c1) ''c1'' click_r1 =
     (Inl (ConnectionNotOpen ''c1''), add store_closed conn_c1)"
proof -
  have a: "get store_open ''c1'' = None"
    by (simp add: get_def map_get_def store_open_def createConnectionStore_def)
  have b: "get (add store_closed conn_c1) ''c1'' = Some conn_c1"
    by (simp add: get_def map_get_def add_def store_closed_def createConnectionStore_def conn_c1_def)
  have c: "readyState (add store_closed conn_c1) (ws conn_c1) \<noteq> 1"
    by (simp add: add_def store_closed_def createConnectionStore_def)
  show ?thesis
    using a b c
      sendCommand_guards [of store_open "''c1''" click_r1 conn_c1]
      sendCommand_guards [of "add store_closed conn_c1" "''c1''" click_r1 conn_c1]
    by simp
qed

subsection \<open>getActive\<close>

lemma getActive_loop_none:
  "\<forall>c\<in>set cs. lastActivity c \<le> m \<Longrightarrow> getActive_loop cs a m = a"
  by (induction cs arbitrary: a m) auto

lemma getActive_loop_some:
  "\<exists>c\<in>set cs. lastActivity c > m \<Longrightarrow>
   \<exists>c\<in>set cs. getActive_loop cs a m = Some c \<and> lastActivity c > m \<and>
      (\<forall>c'\<in>set cs. lastActivity c' \<le> lastActivity c)"
proof (induction cs arbitrary: a m)
  case Nil
  then show ?case by simp
next
  case (Cons conn cs)
  show ?case
  proof (cases "lastActivity conn > m")
    case True
    show ?thesis
    proof (cases "\<exists>c\<in>set cs. lastActivity c > lastActivity conn")
      case True
      from Cons.IH [OF True, of "Some conn"] obtain c where
        c: "c \<in> set cs" "getActive_loop cs (Some conn) (lastActivity conn) = Some c"
           "lastActivity c > lastActivity conn" "\<forall>c'\<in>set cs. lastActivity c' \<le> lastActivity c"
        by blast
      with \<open>lastActivity conn > m\<close> show ?thesis by (intro bexI [of _ c]) auto
    next
      case False
      then have "\<forall>c\<in>set cs. lastActivity c \<le> lastActivity conn" by auto
      from getActive_loop_none [OF this, of "Some conn"] this \<open>lastActivity conn > m\<close>
      show ?thesis by (intro bexI [of _ conn]) auto
    qed
  next
    case False
    with Cons.prems have "\<exists>c\<in>set cs. lastActivity c > m" by auto
    from Cons.IH [OF this, of a] obtain c where
      c: "c \<in> set cs" "getActive_loop cs a m = Some c"
         "lastActivity c > m" "\<forall>c'\<in>set cs. lastActivity c' \<le> lastActivity c"
      by blast
    with False show ?thesis by (intro bexI [of _ c]) auto
  qed
qed

text \<open>
  C8, on the code: a connection with \<open>lastActivity = 0\<close> is added to a new store. The
  registry holds this one connection, which is found under its id and has the maximum
  \<open>lastActivity\<close> of the registry, and \<open>getActive\<close> returns not-found: the loop starts from
  \<open>maxActivity = 0\<close> and compares with \<open>>\<close>.
\<close>

theorem getActive_epoch_not_found:
  "list_conns store_epoch = [conn_c1\<lparr>lastActivity := 0\<rparr>] \<and>
   get store_epoch ''c1'' = Some (conn_c1\<lparr>lastActivity := 0\<rparr>) \<and>
   lastActivity (conn_c1\<lparr>lastActivity := 0\<rparr>) = 0 \<and>
   getActive store_epoch = None"
  by (simp add: list_conns_def getActive_def get_def map_get_def store_epoch_def add_def
      store_open_def createConnectionStore_def conn_c1_def)

text \<open>
  The registries on which \<open>getActive\<close> does return the most recently active connection
  are those in which some connection has a \<open>lastActivity\<close> above 0, as all have whose
  timestamps were written from \<open>Date.now()\<close>: there it returns a connection of the
  registry whose \<open>lastActivity\<close> is the maximum over all connections. Over an empty
  registry it returns not-found. It returns not-found as well whenever no connection
  has a \<open>lastActivity\<close> above 0, which is the case of the theorem above.
\<close>

theorem getActive_positive_max:
  "(list_conns w = [] \<longrightarrow> getActive w = None) \<and>
   ((\<forall>c\<in>set (list_conns w). lastActivity c \<le> 0) \<longrightarrow> getActive w = None) \<and>
   ((\<exists>c\<in>set (list_conns w). lastActivity c > 0) \<longrightarrow>
      (\<exists>c\<in>set (list_conns w). getActive w = Some c \<and>
         (\<forall>c'\<in>set (list_conns w). lastActivity c' \<le> lastActivity c)))"
proof (intro conjI impI)
  assume "list_conns w = []"
  then show "getActive w = None" by (simp add: getActive_def list_conns_def)
next
  assume "\<forall>c\<in>set (list_conns w). lastActivity c \<le> 0"
  then show "getActive w = None"
    unfolding getActive_def list_conns_def by (rule getActive_loop_none)
next
  assume "\<exists>c\<in>set (list_conns w). lastActivity c > 0"
  then have "\<exists>c\<in>set (map snd (connections w)). lastActivity c > 0"
    by (simp add: list_conns_def)
  from getActive_loop_some [OF this, of None]
  show "\<exists>c\<in>set (list_conns w). getActive w = Some c \<and>
         (\<forall>c'\<in>set (list_conns w). lastActivity c' \<le> lastActivity c)"
    unfolding getActive_def list_conns_def by blast
qed

theorem getActive_positive_max_witness:
  "list_conns store_open = [] \<and> getActive store_open = None \<and>
   map lastActivity (list_conns store_epoch) = [0] \<and> getActive store_epoch = None \<and>
   map lastActivity (list_conns store_two) = [1000, 2000] \<and>
   getActive store_two = Some conn_c2"
proof -
  have a: "list_conns store_open = []"
    by (simp add: list_conns_def store_open_def createConnectionStore_def)
  have b: "list_conns store_epoch = [conn_c1\<lparr>lastActivity := 0\<rparr>]"
    by (simp add: list_conns_def store_epoch_def add_def store_open_def createConnectionStore_def)
  have c: "list_conns store_two = [conn_c1, conn_c2]"
    by (simp add: list_conns_def store_two_def add_def store_open_def createConnectionStore_def
        conn_c1_def conn_c2_def)
  from a getActive_positive_max [of store_open]
  have 1: "getActive store_open = None" by blast
  from b getActive_positive_max [of store_epoch]
  have 2: "getActive store_epoch = None" by simp
  from c have "\<exists>c\<in>set (list_conns store_two). lastActivity c > 0"
    by (simp add: conn_c1_def)
  with getActive_positive_max [of store_two] obtain x where
    x: "x \<in> set (list_conns store_two)" "getActive store_two = Some x"
       "\<forall>c'\<in>set (list_conns store_two). lastActivity c' \<le> lastActivity x"
    by blast
  from x(1,3) c have "x = conn_c2" by (auto simp: conn_c1_def conn_c2_def)
  with x(2) have 3: "getActive store_two = Some conn_c2" by simp
  show ?thesis using a b c 1 2 3 by (simp add: conn_c1_def conn_c2_def)
qed

subsection \<open>The maps\<close>

lemma map_get_map_set:
  "map_get (map_set k v m) k' = (if k' = k then Some v else map_get m k')"
  by (induction m) (auto simp: map_get_def)

lemma map_get_map_delete:
  "map_get (map_delete k m) k' = (if k' = k then None else map_get m k')"
  by (induction m) (auto simp: map_get_def map_delete_def)

lemma keys_map_set_present:
  "map_get m k = Some v' \<Longrightarrow> map fst (map_set k v m) = map fst m"
  by (induction m) (auto simp: map_get_def split: if_splits)

subsection \<open>updateContext\<close>

lemma notify_effect:
  "notify n hs conn c w =
     w\<lparr>handlerCalls := handlerCalls w @ map (\<lambda>e. (fst e, conn, c, snd e conn c)) (enumerate n hs),
       console := console w @
         concat (map (\<lambda>h. case h conn c of Returned \<Rightarrow> []
                          | Raised err \<Rightarrow> [''[Pincer] Context handler error: '' @ err]) hs)\<rparr>"
proof (induction hs arbitrary: n w)
  case Nil
  show ?case by simp
next
  case (Cons h hs)
  show ?case by (cases "h conn c") (simp_all add: Cons.IH)
qed

lemma updateContext_present:
  assumes "get w i = Some conn"
  shows "updateContext w i c =
     w\<lparr>connections := map_set i (assign_context conn c (now w)) (connections w),
       handlerCalls := handlerCalls w @
         map (\<lambda>e. (fst e, assign_context conn c (now w), c, snd e (assign_context conn c (now w)) c))
           (enumerate 0 (contextHandlers w)),
       console := console w @
         concat (map (\<lambda>h. case h (assign_context conn c (now w)) c of Returned \<Rightarrow> []
                          | Raised err \<Rightarrow> [''[Pincer] Context handler error: '' @ err])
                   (contextHandlers w))\<rparr>"
  using assms by (simp add: updateContext_def get_def notify_effect assign_context_def Let_def)

lemma updateContext_absent:
  "get w i = None \<Longrightarrow> updateContext w i c = w"
  by (simp add: updateContext_def get_def)

text \<open>
  C7. When the connection is absent \<open>updateContext\<close> changes nothing. When it is
  present, the connection stored under the id afterwards is the old one with exactly
  the passed context, \<open>lastActivity\<close> set to the current time and \<open>url\<close> and \<open>title\<close> taken
  from the context; the other connections, the order of the registry, the pending
  requests and the handler list are untouched. Every registered handler is called
  once, in registration order (positions 0, 1, ... of the list), with the updated
  connection and the context, whatever the earlier handlers did: a handler that raises
  is recorded like one that returns (and its error is written to the console), and the
  stored connection does not depend on any handler's result. \<open>updateContext\<close> itself
  always returns a state.
\<close>

theorem updateContext_fanout:
  "(get w i = None \<longrightarrow> updateContext w i c = w) \<and>
   (get w i = Some conn \<longrightarrow>
      get (updateContext w i c) i = Some (assign_context conn c (now w)) \<and>
      context_conn (assign_context conn c (now w)) = Some c \<and>
      lastActivity (assign_context conn c (now w)) = int (now w) \<and>
      url_conn (assign_context conn c (now w)) = url c \<and>
      title_conn (assign_context conn c (now w)) = title c \<and>
      tabId (assign_context conn c (now w)) = tabId conn \<and>
      map fst (connections (updateContext w i c)) = map fst (connections w) \<and>
      (\<forall>j. j \<noteq> i \<longrightarrow> get (updateContext w i c) j = get w j) \<and>
      handlerCalls (updateContext w i c) =
        handlerCalls w @
          map (\<lambda>e. (fst e, assign_context conn c (now w), c, snd e (assign_context conn c (now w)) c))
            (enumerate 0 (contextHandlers w)) \<and>
      map fst (drop (length (handlerCalls w)) (handlerCalls (updateContext w i c))) =
        [0..<length (contextHandlers w)] \<and>
      console (updateContext w i c) =
        console w @
          concat (map (\<lambda>h. case h (assign_context conn c (now w)) c of Returned \<Rightarrow> []
                           | Raised err \<Rightarrow> [''[Pincer] Context handler error: '' @ err])
                    (contextHandlers w)) \<and>
      contextHandlers (updateContext w i c) = contextHandlers w \<and>
      pendingCommands (updateContext w i c) = pendingCommands w \<and>
      settled (updateContext w i c) = settled w)"
proof (intro conjI impI)
  assume "get w i = None"
  then show "updateContext w i c = w" by (rule updateContext_absent)
next
  assume g: "get w i = Some conn"
  note u = updateContext_present [OF g, of c]
  show "get (updateContext w i c) i = Some (assign_context conn c (now w))"
    by (simp add: u get_def map_get_map_set)
  show "context_conn (assign_context conn c (now w)) = Some c"
    "lastActivity (assign_context conn c (now w)) = int (now w)"
    "url_conn (assign_context conn c (now w)) = url c"
    "title_conn (assign_context conn c (now w)) = title c"
    "tabId (assign_context conn c (now w)) = tabId conn"
    by (simp_all add: assign_context_def)
  from g show "map fst (connections (updateContext w i c)) = map fst (connections w)"
    by (simp add: u get_def keys_map_set_present)
  show "\<forall>j. j \<noteq> i \<longrightarrow> get (updateContext w i c) j = get w j"
    by (simp add: u get_def map_get_map_set)
  show "handlerCalls (updateContext w i c) =
        handlerCalls w @
          map (\<lambda>e. (fst e, assign_context conn c (now w), c, snd e (assign_context conn c (now w)) c))
            (enumerate 0 (contextHandlers w))"
    by (simp add: u)
  show "map fst (drop (length (handlerCalls w)) (handlerCalls (updateContext w i c))) =
        [0..<length (contextHandlers w)]"
    by (simp add: u comp_def)
  show "console (updateContext w i c) =
        console w @
          concat (map (\<lambda>h. case h (assign_context conn c (now w)) c of Returned \<Rightarrow> []
                           | Raised err \<Rightarrow> [''[Pincer] Context handler error: '' @ err])
                    (contextHandlers w))"
    by (simp add: u)
  show "contextHandlers (updateContext w i c) = contextHandlers w"
    "pendingCommands (updateContext w i c) = pendingCommands w"
    "settled (updateContext w i c) = settled w"
    by (simp_all add: u)
qed

theorem updateContext_fanout_witness:
  "get store_handlers ''zz'' = None \<and>
   updateContext store_handlers ''zz'' ctx_a = store_handlers \<and>
   get store_handlers ''c1'' = Some conn_c1 \<and>
   map_option context_conn (get (updateContext store_handlers ''c1'' ctx_a) ''c1'') =
     Some (Some ctx_a) \<and>
   map (\<lambda>e. (fst e, snd (snd (snd e)))) (handlerCalls (updateContext store_handlers ''c1'' ctx_a)) =
     [(0, Raised ''boom''), (1, Returned)]"
proof -
  have a: "get store_handlers ''zz'' = None"
    and b: "get store_handlers ''c1'' = Some conn_c1"
    and c: "handlerCalls store_handlers = []"
    and d: "contextHandlers store_handlers = [\<lambda>_ _. Raised ''boom'', \<lambda>_ _. Returned]"
    by (simp_all add: store_handlers_def onContextUpdate_def add_def store_open_def
        createConnectionStore_def get_def map_get_def conn_c1_def)
  from a updateContext_fanout [of store_handlers "''zz''" ctx_a]
  have 1: "updateContext store_handlers ''zz'' ctx_a = store_handlers" by blast
  from b updateContext_fanout [of store_handlers "''c1''" ctx_a conn_c1]
  have 2: "get (updateContext store_handlers ''c1'' ctx_a) ''c1'' =
             Some (assign_context conn_c1 ctx_a (now store_handlers))"
    and 3: "context_conn (assign_context conn_c1 ctx_a (now store_handlers)) = Some ctx_a"
    and 4: "handlerCalls (updateContext store_handlers ''c1'' ctx_a) =
        handlerCalls store_handlers @
          map (\<lambda>e. (fst e, assign_context conn_c1 ctx_a (now store_handlers), ctx_a,
                     snd e (assign_context conn_c1 ctx_a (now store_handlers)) ctx_a))
            (enumerate 0 (contextHandlers store_handlers))"
    by blast+
  show ?thesis by (simp add: a b 1 2 3 4 c d)
qed

subsection \<open>The tab id of a socket connection\<close>

lemma store_pendingCommands_undefined: "store_pendingCommands w = None"
  by (simp add: store_pendingCommands_def store_properties_def)

lemma handleCommandResult_ignored: "handleCommandResult w i r x = w"
  by (simp add: handleCommandResult_def store_pendingCommands_undefined)

lemma connections_remove_loop: "connections (remove_loop i es w) = connections w"
  by (induction es arbitrary: w) auto

lemma connections_fire_due: "connections (fire_due ts w) = connections w"
  by (induction ts arbitrary: w) (auto simp: timeout_callback_def)

lemma get_add: "get (add w conn) j = (if j = id_conn conn then Some conn else get w j)"
  by (simp add: get_def add_def map_get_map_set)

lemma get_remove: "get (remove w i) j = (if j = i then None else get w j)"
  by (cases "map_get (connections w) i")
     (auto simp: remove_def get_def connections_remove_loop map_get_map_delete Let_def)

lemma get_updateContext:
  "get (updateContext w i c) j =
     (if j = i then map_option (\<lambda>conn. assign_context conn c (now w)) (get w i) else get w j)"
proof (cases "get w i")
  case None
  then show ?thesis by (simp add: updateContext_absent)
next
  case (Some conn)
  then show ?thesis by (simp add: updateContext_present get_def map_get_map_set)
qed

lemma tabId_updateContext:
  "map_option tabId (get (updateContext w i c) j) = map_option tabId (get w j)"
  by (cases "get w i") (auto simp: get_updateContext assign_context_def)

lemma get_sendCommand: "get (snd (sendCommand w i command)) j = get w j"
  by (simp add: sendCommand_def get_def Let_def split: option.splits)

lemma get_advance: "get (advance w d) j = get w j"
  by (simp add: advance_def get_def Let_def connections_fire_due)

lemma get_onContextUpdate: "get (onContextUpdate w h) j = get w j"
  by (simp add: onContextUpdate_def get_def)

lemma get_setReadyState: "get (setReadyState w s r) j = get w j"
  by (simp add: setReadyState_def get_def)

lemma bindTab_ok:
  assumes "binding_ok h w"
  shows "binding_ok (fst (bindTab (h, w) m)) (snd (bindTab (h, w) m))"
    and "connId (fst (bindTab (h, w) m)) = connId h"
    and "tabId_var (fst (bindTab (h, w) m)) = rebind (tabId_var h) [m]"
  using assms
  by (auto simp: bindTab_def binding_ok_def rebind_def get_add split: option.splits)

lemma binding_ok_world:
  assumes "binding_ok h w"
    and "get w' (connId h) = None \<or> map_option tabId (get w' (connId h)) = map_option tabId (get w (connId h))"
  shows "binding_ok h w'"
  using assms by (auto simp: binding_ok_def split: option.splits)

lemma handleMessage_ok:
  assumes "binding_ok h w"
  shows "binding_ok (fst (handleMessage (h, w) m)) (snd (handleMessage (h, w) m))"
    and "connId (fst (handleMessage (h, w) m)) = connId h"
    and "tabId_var (fst (handleMessage (h, w) m)) = rebind (tabId_var h) [m]"
proof -
  let ?h = "fst (bindTab (h, w) m)" and ?w = "snd (bindTab (h, w) m)"
  note b = bindTab_ok [OF assms, of m]
  have f: "fst (handleMessage (h, w) m) = ?h"
    by (simp add: handleMessage_def Let_def split: option.splits)
  have "get (snd (handleMessage (h, w) m)) (connId ?h) = None \<or>
        map_option tabId (get (snd (handleMessage (h, w) m)) (connId ?h)) =
          map_option tabId (get ?w (connId ?h))"
    by (simp add: handleMessage_def Let_def handlePageContext_def get_remove tabId_updateContext
        handleCommandResult_ignored split: option.splits)
  from binding_ok_world [OF b(1) this] show "binding_ok (fst (handleMessage (h, w) m)) (snd (handleMessage (h, w) m))"
    by (simp add: f)
  show "connId (fst (handleMessage (h, w) m)) = connId h" by (simp add: f b)
  show "tabId_var (fst (handleMessage (h, w) m)) = rebind (tabId_var h) [m]" by (simp add: f b)
qed

lemma step_get:
  assumes "\<not> adds_under i (Elsewhere ev)"
  shows "get (step w ev) i = None \<or> map_option tabId (get (step w ev) i) = map_option tabId (get w i)"
  using assms
  by (cases ev)
     (simp_all add: get_add get_remove tabId_updateContext get_sendCommand get_advance
        handleCommandResult_ignored get_onContextUpdate get_setReadyState)

lemma rebind_Cons: "rebind v (m # ms) = rebind (rebind v [m]) ms"
  by (simp add: rebind_def split: option.splits)

lemma socket_run_ok:
  assumes "binding_ok h w" "\<forall>ev\<in>set evs. \<not> adds_under (connId h) ev"
  shows "binding_ok (fst (socket_run (h, w) evs)) (snd (socket_run (h, w) evs)) \<and>
         connId (fst (socket_run (h, w) evs)) = connId h \<and>
         tabId_var (fst (socket_run (h, w) evs)) = rebind (tabId_var h) (inbound evs)"
  using assms
proof (induction evs arbitrary: h w)
  case Nil
  then show ?case by (simp add: socket_run_def rebind_def split: option.splits)
next
  case (Cons ev evs)
  show ?case
  proof (cases ev)
    case (Inbound m)
    let ?h = "fst (handleMessage (h, w) m)" and ?w = "snd (handleMessage (h, w) m)"
    note s = handleMessage_ok [OF Cons.prems(1), of m]
    from Cons.prems(2) s(2) have "\<forall>ev\<in>set evs. \<not> adds_under (connId ?h) ev" by simp
    from Cons.IH [OF s(1) this] s(2,3) Inbound
    show ?thesis by (simp add: socket_run_def rebind_Cons [of "tabId_var h" m "inbound evs"])
  next
    case (Elsewhere e)
    with Cons.prems(2) have "\<not> adds_under (connId h) (Elsewhere e)" by simp
    from binding_ok_world [OF Cons.prems(1) step_get [OF this]]
    have b: "binding_ok h (step w e)" .
    from Cons.prems(2) have "\<forall>ev\<in>set evs. \<not> adds_under (connId h) ev" by simp
    from Cons.IH [OF b this] Elsewhere
    show ?thesis by (simp add: socket_run_def)
  qed
qed

lemma firstTabId_append:
  "firstTabId (ms @ ms') = (case firstTabId ms of Some t \<Rightarrow> Some t | None \<Rightarrow> firstTabId ms')"
  by (induction ms) auto

lemma inbound_append: "inbound (evs @ evs') = inbound evs @ inbound evs'"
  by (induction evs rule: inbound.induct) auto

lemma inbound_map: "inbound (map Inbound ms) = ms"
  by (induction ms) auto

lemma handleMessages_socket_run: "handleMessages hw ms = socket_run hw (map Inbound ms)"
  by (induction ms arbitrary: hw) (simp_all add: handleMessages_def socket_run_def)

lemma binding_ok_handleUpgrade: "get w i = None \<Longrightarrow> binding_ok (handleUpgrade i s) w"
  by (simp add: binding_ok_def handleUpgrade_def)

lemma socket_run_fresh:
  assumes "get w i = None" "\<forall>ev\<in>set evs. \<not> adds_under i ev"
  shows "tabId_var (fst (socket_run (handleUpgrade i s, w) evs)) = firstTabId (inbound evs)"
    and "get (snd (socket_run (handleUpgrade i s, w) evs)) i = Some conn \<Longrightarrow>
         Some (tabId conn) = firstTabId (inbound evs)"
proof -
  have c: "connId (handleUpgrade i s) = i" "tabId_var (handleUpgrade i s) = None"
    by (simp_all add: handleUpgrade_def)
  from assms(2) have "\<forall>ev\<in>set evs. \<not> adds_under (connId (handleUpgrade i s)) ev"
    by (simp add: c)
  note r = socket_run_ok [OF binding_ok_handleUpgrade [OF assms(1), of s] this]
  from r show t: "tabId_var (fst (socket_run (handleUpgrade i s, w) evs)) = firstTabId (inbound evs)"
    by (simp add: c rebind_def)
  assume "get (snd (socket_run (handleUpgrade i s, w) evs)) i = Some conn"
  with r t show "Some (tabId conn) = firstTabId (inbound evs)"
    by (auto simp add: binding_ok_def c)
qed

text \<open>
  C9. A socket connection starts with its id not registered and its tab id variable
  \<open>undefined\<close>. After every sequence of inbound messages the variable holds the tab id of
  the first message that carries one (a tab id that is truthy: the binding is guarded
  by \<open>message.tabId && !tabId\<close>), and so does the registry entry of the connection
  whenever there is one. Once a message has bound the tab id, no later messages change
  the variable or the tab id of the entry. The same holds when other events of the
  store (other sockets, removals, tool calls, timers) happen between the messages.
\<close>

theorem tab_binding_first_write_wins:
  assumes "get w i = None"
  shows
    "tabId_var (fst (handleMessages (handleUpgrade i s, w) ms)) = firstTabId ms \<and>
     (\<forall>conn. get (snd (handleMessages (handleUpgrade i s, w) ms)) i = Some conn \<longrightarrow>
        Some (tabId conn) = firstTabId ms) \<and>
     (\<forall>t. firstTabId ms = Some t \<longrightarrow>
        tabId_var (fst (handleMessages (handleUpgrade i s, w) (ms @ ms'))) = Some t \<and>
        (\<forall>conn. get (snd (handleMessages (handleUpgrade i s, w) (ms @ ms'))) i = Some conn \<longrightarrow>
           tabId conn = t)) \<and>
     ((\<forall>ev\<in>set evs. \<not> adds_under i ev) \<longrightarrow>
        tabId_var (fst (socket_run (handleUpgrade i s, w) evs)) = firstTabId (inbound evs) \<and>
        (\<forall>conn. get (snd (socket_run (handleUpgrade i s, w) evs)) i = Some conn \<longrightarrow>
           Some (tabId conn) = firstTabId (inbound evs)))"
proof -
  have n: "\<forall>ev\<in>set (map Inbound xs). \<not> adds_under i ev" for xs
    by (induction xs) auto
  note a = socket_run_fresh [OF assms n, of s, unfolded inbound_map, folded handleMessages_socket_run]
  have 1: "tabId_var (fst (handleMessages (handleUpgrade i s, w) ms)) = firstTabId ms"
    by (rule a(1))
  have 2: "\<forall>conn. get (snd (handleMessages (handleUpgrade i s, w) ms)) i = Some conn \<longrightarrow>
        Some (tabId conn) = firstTabId ms"
    using a(2) by blast
  have 3: "\<forall>t. firstTabId ms = Some t \<longrightarrow>
        tabId_var (fst (handleMessages (handleUpgrade i s, w) (ms @ ms'))) = Some t \<and>
        (\<forall>conn. get (snd (handleMessages (handleUpgrade i s, w) (ms @ ms'))) i = Some conn \<longrightarrow>
           tabId conn = t)"
  proof (intro allI impI conjI)
    fix t conn
    assume t: "firstTabId ms = Some t"
    then have f: "firstTabId (ms @ ms') = Some t" by (simp add: firstTabId_append)
    from a(1) [of "ms @ ms'"] f
    show "tabId_var (fst (handleMessages (handleUpgrade i s, w) (ms @ ms'))) = Some t" by simp
    assume "get (snd (handleMessages (handleUpgrade i s, w) (ms @ ms'))) i = Some conn"
    from a(2) [OF this] f show "tabId conn = t" by simp
  qed
  have 4: "(\<forall>ev\<in>set evs. \<not> adds_under i ev) \<longrightarrow>
        tabId_var (fst (socket_run (handleUpgrade i s, w) evs)) = firstTabId (inbound evs) \<and>
        (\<forall>conn. get (snd (socket_run (handleUpgrade i s, w) evs)) i = Some conn \<longrightarrow>
           Some (tabId conn) = firstTabId (inbound evs))"
    using socket_run_fresh [OF assms, of evs s] by blast
  from 1 2 3 4 show ?thesis by blast
qed

lemma socket_events_run:
  "map_option tabId (get (snd (socket_run (handleUpgrade ''c1'' 0, store_open) socket_events)) ''c1'') = Some 7"
  by (simp add: socket_run_def socket_events_def handleUpgrade_def store_open_def
      createConnectionStore_def msg_def handleMessage_def bindTab_def truthy_def add_def
      advance_def handlePageContext_def updateContext_def assign_context_def map_get_def get_def Let_def)

theorem tab_binding_first_write_wins_witness:
  "get store_open ''c1'' = None \<and>
   firstTabId (inbound socket_events) = Some 7 \<and>
   tabId_var (fst (socket_run (handleUpgrade ''c1'' 0, store_open) socket_events)) = Some 7 \<and>
   map_option tabId (get (snd (socket_run (handleUpgrade ''c1'' 0, store_open) socket_events)) ''c1'') =
     Some 7"
proof -
  have a: "get store_open ''c1'' = None"
    by (simp add: get_def map_get_def store_open_def createConnectionStore_def)
  have b: "\<forall>ev\<in>set socket_events. \<not> adds_under ''c1'' ev"
    by (simp add: socket_events_def)
  have c: "firstTabId (inbound socket_events) = Some 7"
    by (simp add: socket_events_def msg_def truthy_def)
  from tab_binding_first_write_wins [OF a, of 0 "[]" "[]" socket_events] b c
  have "tabId_var (fst (socket_run (handleUpgrade ''c1'' 0, store_open) socket_events)) = Some 7"
    by simp
  with a c socket_events_run show ?thesis by simp
qed

subsection \<open>Removal and timers in closed form\<close>

lemma remove_loop_effect:
  "remove_loop i es w =
     w\<lparr>timers :=
         filter (\<lambda>t. fst t \<notin> set (map (\<lambda>e. timeout (snd e)) (filter (\<lambda>e. prefix i (fst e)) es)))
           (timers w),
       settled := settled w @
         map (\<lambda>e. (promise (snd e), Rejected ConnectionClosed)) (filter (\<lambda>e. prefix i (fst e)) es),
       pendingCommands :=
         filter (\<lambda>x. fst x \<notin> set (map fst (filter (\<lambda>e. prefix i (fst e)) es)))
           (pendingCommands w)\<rparr>"
proof (induction es arbitrary: w)
  case Nil
  show ?case by simp
next
  case (Cons e es)
  show ?case by (simp add: Cons.IH map_delete_def)
qed

lemma now_fire_due: "now (fire_due ts w) = now w"
  by (induction ts arbitrary: w) (auto simp: timeout_callback_def)

lemma fire_due_effect:
  "fire_due ts w =
     w\<lparr>timers :=
         filter (\<lambda>t. fst t \<notin> set (map fst (filter (\<lambda>e. due (snd e) \<le> now w) ts))) (timers w),
       pendingCommands :=
         filter (\<lambda>x. fst x \<notin> set (map (\<lambda>e. key_timer (snd e)) (filter (\<lambda>e. due (snd e) \<le> now w) ts)))
           (pendingCommands w),
       settled := settled w @
         map (\<lambda>e. (reject_timer (snd e), Rejected CommandTimeout))
           (filter (\<lambda>e. due (snd e) \<le> now w) ts)\<rparr>"
proof (induction ts arbitrary: w)
  case Nil
  show ?case by simp
next
  case (Cons e ts)
  show ?case by (simp add: Cons.IH map_delete_def timeout_callback_def)
qed

subsection \<open>The bookkeeping is kept by every event\<close>

lemma consistent_same: "same_requests w w' \<Longrightarrow> consistent w' = consistent w"
  by (simp add: same_requests_def consistent_def)

lemma consistent_filter:
  assumes w: "consistent w"
    and t: "timers w' = filter P (timers w)"
    and q: "pendingCommands w' = filter Q (pendingCommands w)"
    and s: "settled w' = settled w @ more_calls"
    and x: "\<forall>e\<in>set more_calls. fst e < nextPromise w"
    and n: "nextTimer w' = nextTimer w" "nextPromise w' = nextPromise w"
    and l: "\<And>e t. e \<in> set (pendingCommands w) \<Longrightarrow> Q e \<Longrightarrow> (timeout (snd e), t) \<in> set (timers w) \<Longrightarrow>
              key_timer t = fst e \<Longrightarrow> P (timeout (snd e), t)"
  shows "consistent w'"
proof -
  from w have d1: "distinct (map fst (timers w'))"
    by (simp add: consistent_def t distinct_map_filter)
  from w have d2: "distinct (map (\<lambda>e. reject_timer (snd e)) (timers w'))"
    by (simp add: consistent_def t distinct_map_filter)
  from w have b: "\<forall>e\<in>set (timers w'). fst e < nextTimer w' \<and> reject_timer (snd e) < nextPromise w'"
    by (simp add: consistent_def t n)
  have k: "\<forall>e\<in>set (pendingCommands w').
        \<exists>t. (timeout (snd e), t) \<in> set (timers w') \<and> key_timer t = fst e \<and>
            reject_timer t = promise (snd e)"
  proof
    fix e assume "e \<in> set (pendingCommands w')"
    then have e: "e \<in> set (pendingCommands w)" "Q e" by (simp_all add: q)
    with w obtain t where t': "(timeout (snd e), t) \<in> set (timers w)" "key_timer t = fst e"
      "reject_timer t = promise (snd e)"
      unfolding consistent_def by blast
    from l [OF e t'(1,2)] t' show "\<exists>t. (timeout (snd e), t) \<in> set (timers w') \<and> key_timer t = fst e \<and>
            reject_timer t = promise (snd e)"
      by (auto simp: t)
  qed
  from w x have c: "\<forall>e\<in>set (settled w'). fst e < nextPromise w'"
    by (auto simp: consistent_def s n)
  from d1 d2 b k c show ?thesis unfolding consistent_def by blast
qed

lemma consistent_handle_unique:
  "consistent w \<Longrightarrow> (h, t) \<in> set (timers w) \<Longrightarrow> (h, t') \<in> set (timers w) \<Longrightarrow> t = t'"
  unfolding consistent_def by (meson eq_key_imp_eq_value)

lemma consistent_reject_unique:
  assumes "consistent w" "(h, t) \<in> set (timers w)" "(h', t') \<in> set (timers w)"
    "reject_timer t = reject_timer t'"
  shows "h = h' \<and> t = t'"
proof -
  from assms(1) have "inj_on (\<lambda>e. reject_timer (snd e)) (set (timers w))"
    by (simp add: consistent_def distinct_map)
  from inj_onD [OF this _ assms(2,3)] assms(4) show ?thesis by simp
qed

lemma same_requests_quiet:
  "same_requests w (add w conn)"
  "same_requests w (updateContext w i c)"
  "same_requests w (onContextUpdate w f)"
  "same_requests w (handleCommandResult w i r x)"
  "same_requests w (setReadyState w s rs)"
proof -
  show "same_requests w (updateContext w i c)"
    by (cases "get w i") (simp_all add: updateContext_absent updateContext_present same_requests_def)
qed (simp_all add: same_requests_def add_def onContextUpdate_def handleCommandResult_ignored
      setReadyState_def)

lemma set_map_set: "set (map_set k v m) \<subseteq> insert (k, v) (set m)"
  by (induction m) auto

lemma map_set_mem: "(k, v) \<in> set (map_set k v m)"
  by (induction m) auto

lemma sendCommand_cases:
  "(\<exists>e. sendCommand w i command = (Inl e, w)) \<or>
   (\<exists>conn. get w i = Some conn \<and> readyState w (ws conn) = 1)"
proof (cases "get w i")
  case None
  then show ?thesis by (simp add: sendCommand_def get_def)
next
  case (Some conn)
  then show ?thesis by (cases "readyState w (ws conn) = 1") (simp_all add: sendCommand_def get_def)
qed

lemma sendCommand_sent:
  assumes "get w i = Some conn" "readyState w (ws conn) = 1"
  shows "fst (sendCommand w i command) = Inr (nextPromise w)"
    and "timers (snd (sendCommand w i command)) =
           timers w @ [(nextTimer w, \<lparr>due = now w + 30000, key_timer = fullId i (requestId command),
                                     reject_timer = nextPromise w\<rparr>)]"
    and "pendingCommands (snd (sendCommand w i command)) =
           map_set (fullId i (requestId command)) \<lparr>promise = nextPromise w, timeout = nextTimer w\<rparr>
             (pendingCommands w)"
    and "settled (snd (sendCommand w i command)) =
           settled w @ (case stringify_error (extra command) of
                          None \<Rightarrow> []
                        | Some m \<Rightarrow> [(nextPromise w, Rejected (TypeError m))])"
    and "now (snd (sendCommand w i command)) = now w"
    and "nextTimer (snd (sendCommand w i command)) = Suc (nextTimer w)"
    and "nextPromise (snd (sendCommand w i command)) = Suc (nextPromise w)"
  using assms by (simp_all add: sendCommand_def get_def Let_def split: option.splits)

lemma consistent_sendCommand:
  assumes "consistent w"
  shows "consistent (snd (sendCommand w i command))"
proof -
  from sendCommand_cases [of w i command] consider
    (failed) e where "sendCommand w i command = (Inl e, w)"
    | (sent) conn where "get w i = Some conn" "readyState w (ws conn) = 1"
    by blast
  then show ?thesis
  proof cases
  case (failed e)
  with assms show ?thesis by simp
next
  case (sent conn)
  note f = sendCommand_sent [OF sent, of command]
  let ?w = "snd (sendCommand w i command)"
  let ?k = "fullId i (requestId command)"
  from assms have fresh: "nextTimer w \<notin> fst ` set (timers w)"
    "nextPromise w \<notin> (\<lambda>e. reject_timer (snd e)) ` set (timers w)"
    unfolding consistent_def by fastforce+
  from assms fresh have d: "distinct (map fst (timers ?w))"
    "distinct (map (\<lambda>e. reject_timer (snd e)) (timers ?w))"
    by (simp_all add: f consistent_def)
  from assms have b: "\<forall>e\<in>set (timers ?w). fst e < nextTimer ?w \<and> reject_timer (snd e) < nextPromise ?w"
    by (auto simp: f consistent_def less_Suc_eq)
  have k: "\<forall>e\<in>set (pendingCommands ?w).
        \<exists>t. (timeout (snd e), t) \<in> set (timers ?w) \<and> key_timer t = fst e \<and>
            reject_timer t = promise (snd e)"
  proof
    fix e assume "e \<in> set (pendingCommands ?w)"
    with set_map_set [of ?k _ "pendingCommands w"]
    have "e = (?k, \<lparr>promise = nextPromise w, timeout = nextTimer w\<rparr>) \<or> e \<in> set (pendingCommands w)"
      by (auto simp: f)
    then show "\<exists>t. (timeout (snd e), t) \<in> set (timers ?w) \<and> key_timer t = fst e \<and>
            reject_timer t = promise (snd e)"
    proof
      assume "e = (?k, \<lparr>promise = nextPromise w, timeout = nextTimer w\<rparr>)"
      then show ?thesis by (auto simp add: f)
    next
      assume "e \<in> set (pendingCommands w)"
      with assms show ?thesis unfolding consistent_def by (fastforce simp: f)
    qed
  qed
  from assms have c: "\<forall>e\<in>set (settled ?w). fst e < nextPromise ?w"
    by (auto simp: f consistent_def less_Suc_eq split: option.splits)
  from d b k c show ?thesis unfolding consistent_def by blast
qed
qed

lemma remove_absent: "get w j = None \<Longrightarrow> remove w j = w"
  by (simp add: remove_def get_def)

lemma remove_present:
  assumes "get w j = Some conn"
  shows "timers (remove w j) =
           filter (\<lambda>t. fst t \<notin> set (map (\<lambda>e. timeout (snd e))
                                    (filter (\<lambda>e. prefix j (fst e)) (pendingCommands w))))
             (timers w)"
    and "pendingCommands (remove w j) = filter (\<lambda>e. \<not> prefix j (fst e)) (pendingCommands w)"
    and "settled (remove w j) =
           settled w @ map (\<lambda>e. (promise (snd e), Rejected ConnectionClosed))
                         (filter (\<lambda>e. prefix j (fst e)) (pendingCommands w))"
    and "now (remove w j) = now w"
    and "nextTimer (remove w j) = nextTimer w"
    and "nextPromise (remove w j) = nextPromise w"
    and "connections (remove w j) = map_delete j (connections w)"
proof -
  have "filter (\<lambda>x. fst x \<notin> set (map fst (filter (\<lambda>e. prefix j (fst e)) (pendingCommands w))))
          (pendingCommands w) =
        filter (\<lambda>e. \<not> prefix j (fst e)) (pendingCommands w)"
    by (rule filter_cong) force+
  with assms show "pendingCommands (remove w j) = filter (\<lambda>e. \<not> prefix j (fst e)) (pendingCommands w)"
    by (simp add: remove_def get_def Let_def remove_loop_effect)
qed (use assms in \<open>simp_all add: remove_def get_def Let_def remove_loop_effect\<close>)

lemma consistent_remove:
  assumes "consistent w"
  shows "consistent (remove w j)"
proof (cases "get w j")
  case None
  with assms show ?thesis by (simp add: remove_absent)
next
  case (Some conn)
  note f = remove_present [OF Some]
  show ?thesis
  proof (rule consistent_filter [OF assms f(1) f(2) f(3) _ f(5) f(6)])
    from assms show "\<forall>e\<in>set (map (\<lambda>e. (promise (snd e), Rejected ConnectionClosed))
                 (filter (\<lambda>e. prefix j (fst e)) (pendingCommands w))). fst e < nextPromise w"
      unfolding consistent_def by fastforce
  next
    fix e t
    assume e: "e \<in> set (pendingCommands w)" "\<not> prefix j (fst e)"
      and t: "(timeout (snd e), t) \<in> set (timers w)" "key_timer t = fst e"
    show "fst (timeout (snd e), t) \<notin> set (map (\<lambda>e. timeout (snd e))
                                    (filter (\<lambda>e. prefix j (fst e)) (pendingCommands w)))"
    proof
      assume "fst (timeout (snd e), t) \<in> set (map (\<lambda>e. timeout (snd e))
                                    (filter (\<lambda>e. prefix j (fst e)) (pendingCommands w)))"
      then obtain e' where e': "e' \<in> set (pendingCommands w)" "prefix j (fst e')"
        "timeout (snd e') = timeout (snd e)"
        by auto
      with assms obtain t' where t': "(timeout (snd e'), t') \<in> set (timers w)" "key_timer t' = fst e'"
        unfolding consistent_def by blast
      from consistent_handle_unique [OF assms t(1)] t' e'(3) have "t = t'" by simp
      with t t' e'(2) e(2) show False by simp
    qed
  qed
qed

lemma advance_fields:
  "timers (advance w d) = filter (\<lambda>t. fst t \<notin> set (map fst (filter (\<lambda>e. due (snd e) \<le> now w + d) (timers w)))) (timers w)"
  "pendingCommands (advance w d) =
     filter (\<lambda>x. fst x \<notin> set (map (\<lambda>e. key_timer (snd e))
                              (filter (\<lambda>e. due (snd e) \<le> now w + d) (timers w))))
       (pendingCommands w)"
  "settled (advance w d) =
     settled w @ map (\<lambda>e. (reject_timer (snd e), Rejected CommandTimeout))
                   (filter (\<lambda>e. due (snd e) \<le> now w + d) (timers w))"
  "now (advance w d) = now w + d"
  "nextTimer (advance w d) = nextTimer w"
  "nextPromise (advance w d) = nextPromise w"
  by (simp_all add: advance_def Let_def fire_due_effect)

lemma consistent_advance:
  assumes "consistent w"
  shows "consistent (advance w d)"
proof (rule consistent_filter [OF assms advance_fields(1) advance_fields(2) advance_fields(3) _
        advance_fields(5) advance_fields(6)])
  from assms show "\<forall>e\<in>set (map (\<lambda>e. (reject_timer (snd e), Rejected CommandTimeout))
                 (filter (\<lambda>e. due (snd e) \<le> now w + d) (timers w))). fst e < nextPromise w"
    unfolding consistent_def by fastforce
next
  fix e t
  assume e: "e \<in> set (pendingCommands w)"
      "fst e \<notin> set (map (\<lambda>e. key_timer (snd e)) (filter (\<lambda>e. due (snd e) \<le> now w + d) (timers w)))"
    and t: "(timeout (snd e), t) \<in> set (timers w)" "key_timer t = fst e"
  show "fst (timeout (snd e), t) \<notin> set (map fst (filter (\<lambda>e. due (snd e) \<le> now w + d) (timers w)))"
  proof
    assume "fst (timeout (snd e), t) \<in> set (map fst (filter (\<lambda>e. due (snd e) \<le> now w + d) (timers w)))"
    then obtain t' where t': "(timeout (snd e), t') \<in> set (timers w)" "due t' \<le> now w + d"
      by auto
    from consistent_handle_unique [OF assms t(1) t'(1)] have "t = t'" .
    with t t' have "fst e \<in> set (map (\<lambda>e. key_timer (snd e)) (filter (\<lambda>e. due (snd e) \<le> now w + d) (timers w)))"
      by force
    with e(2) show False by simp
  qed
qed

lemma consistent_step: "consistent w \<Longrightarrow> consistent (step w ev)"
  by (cases ev)
     (simp_all add: consistent_same [OF same_requests_quiet(1)] consistent_same [OF same_requests_quiet(2)]
        consistent_same [OF same_requests_quiet(3)] consistent_same [OF same_requests_quiet(4)]
        consistent_same [OF same_requests_quiet(5)] consistent_sendCommand consistent_remove consistent_advance)

lemma consistent_run: "consistent w \<Longrightarrow> consistent (run w evs)"
  unfolding run_def by (induction evs arbitrary: w) (simp_all add: consistent_step)

lemma consistent_new: "consistent (createConnectionStore t rs)"
  by (simp add: consistent_def createConnectionStore_def)

subsection \<open>A request until its timeout, and after it\<close>

lemma now_step: "now (step w ev) = now w + elapsed [ev]"
proof (cases ev)
  case (SendCommand i command)
  then show ?thesis by (simp add: sendCommand_def Let_def split: option.splits)
next
  case (Remove j)
  then show ?thesis
    by (cases "get w j") (simp_all add: remove_absent remove_present)
next
  case (Advance d)
  then show ?thesis by (simp add: advance_fields)
qed (use same_requests_quiet [of w] in \<open>simp_all add: same_requests_def\<close>)

lemma outstanding_same:
  "same_requests w w' \<Longrightarrow> outstanding w' h p k D = outstanding w h p k D"
  by (simp add: outstanding_def consistent_same) (simp add: same_requests_def)

lemma outstanding_sendCommand:
  assumes "outstanding w h p k D"
  shows "outstanding (snd (sendCommand w i command)) h p k D"
proof -
  from sendCommand_cases [of w i command] consider
    (failed) e where "sendCommand w i command = (Inl e, w)"
    | (sent) conn where "get w i = Some conn" "readyState w (ws conn) = 1"
    by blast
  then show ?thesis
  proof cases
    case (failed e)
    with assms show ?thesis by simp
  next
    case (sent conn)
    note f = sendCommand_sent [OF sent, of command]
    from assms have "p < nextPromise w"
      unfolding outstanding_def consistent_def by fastforce
    with assms consistent_sendCommand [of w i command] show ?thesis
      by (auto simp add: outstanding_def f split: option.splits)
  qed
qed

lemma outstanding_remove:
  assumes o: "outstanding w h p k D" and c: "\<not> prefix j k"
  shows "outstanding (remove w j) h p k D"
proof (cases "get w j")
  case None
  with o show ?thesis by (simp add: remove_absent)
next
  case (Some conn)
  note f = remove_present [OF Some]
  let ?T = "\<lparr>due = D, key_timer = k, reject_timer = p\<rparr>"
  from o have w: "consistent w" and T: "(h, ?T) \<in> set (timers w)"
    and p: "p \<notin> set (map fst (settled w))" and n: "now w < D"
    by (simp_all add: outstanding_def)
  have ent: "fst e = k" "timeout (snd e) = h"
    if e: "e \<in> set (pendingCommands w)" and d: "timeout (snd e) = h \<or> promise (snd e) = p" for e
  proof -
    from w e obtain t where t: "(timeout (snd e), t) \<in> set (timers w)" "key_timer t = fst e"
      "reject_timer t = promise (snd e)"
      unfolding consistent_def by blast
    from d have "t = ?T \<and> timeout (snd e) = h"
    proof
      assume "timeout (snd e) = h"
      with consistent_handle_unique [OF w T] t(1) show ?thesis by simp
    next
      assume "promise (snd e) = p"
      with consistent_reject_unique [OF w T t(1)] t(3) show ?thesis by simp
    qed
    with t show "fst e = k" "timeout (snd e) = h" by simp_all
  qed
  have 1: "(h, ?T) \<in> set (timers (remove w j))"
    using T c ent(1) by (auto simp: f)
  have 2: "p \<notin> set (map fst (settled (remove w j)))"
    using p c ent(1) by (auto simp: f)
  from 1 2 n consistent_remove [OF w, of j] show ?thesis by (simp add: outstanding_def f)
qed

lemma outstanding_advance:
  assumes o: "outstanding w h p k D" and c: "now w + d < D"
  shows "outstanding (advance w d) h p k D"
proof -
  let ?T = "\<lparr>due = D, key_timer = k, reject_timer = p\<rparr>"
  from o have w: "consistent w" and T: "(h, ?T) \<in> set (timers w)"
    and p: "p \<notin> set (map fst (settled w))"
    by (simp_all add: outstanding_def)
  have nd: "\<not> due t \<le> now w + d"
    if t: "(h', t) \<in> set (timers w)" and d: "h' = h \<or> reject_timer t = p" for h' t
  proof -
    from d have "t = ?T"
    proof
      assume "h' = h"
      with consistent_handle_unique [OF w T] t show ?thesis by simp
    next
      assume "reject_timer t = p"
      with consistent_reject_unique [OF w T t] show ?thesis by simp
    qed
    with c show ?thesis by simp
  qed
  have 1: "(h, ?T) \<in> set (timers (advance w d))"
    using T nd by (auto simp: advance_fields)
  have 2: "p \<notin> set (map fst (settled (advance w d)))"
    using p nd by (auto simp: advance_fields)
  from 1 2 c consistent_advance [OF w, of d] show ?thesis by (simp add: outstanding_def advance_fields)
qed

lemma outstanding_step:
  assumes "outstanding w h p k D" "\<not> cancels k ev" "now w + elapsed [ev] < D"
  shows "outstanding (step w ev) h p k D"
  using assms
  by (cases ev)
     (simp_all add: outstanding_same [OF same_requests_quiet(1)]
        outstanding_same [OF same_requests_quiet(2)] outstanding_same [OF same_requests_quiet(3)]
        outstanding_same [OF same_requests_quiet(4)] outstanding_same [OF same_requests_quiet(5)]
        outstanding_sendCommand outstanding_remove outstanding_advance)

lemma elapsed_Cons: "elapsed (ev # evs) = elapsed [ev] + elapsed evs"
  by (cases ev) simp_all

lemma outstanding_run:
  assumes "outstanding w h p k D" "\<forall>ev\<in>set evs. \<not> cancels k ev" "now w + elapsed evs < D"
  shows "outstanding (run w evs) h p k D \<and> now (run w evs) = now w + elapsed evs"
  using assms
proof (induction evs arbitrary: w)
  case Nil
  then show ?case by (simp add: run_def)
next
  case (Cons ev evs)
  from Cons.prems(3) have t: "now w + elapsed [ev] < D" "now (step w ev) + elapsed evs < D"
    by (simp_all add: now_step elapsed_Cons [of ev evs])
  from Cons.prems(2) have c: "\<not> cancels k ev" "\<forall>ev\<in>set evs. \<not> cancels k ev" by simp_all
  from Cons.IH [OF outstanding_step [OF Cons.prems(1) c(1) t(1)] c(2) t(2)]
  show ?case by (simp add: run_def now_step elapsed_Cons [of ev evs])
qed

lemma filter_distinct_image:
  "distinct (map f xs) \<Longrightarrow> x \<in> set xs \<Longrightarrow> filter (\<lambda>e. f e = f x) xs = [x]"
proof (induction xs)
  case Nil
  then show ?case by simp
next
  case (Cons a xs)
  show ?case
  proof (cases "a = x")
    case True
    with Cons.prems(1) have "\<forall>e\<in>set xs. f e \<noteq> f x" by (auto simp: image_iff)
    then have "filter (\<lambda>e. f e = f x) xs = []" by (simp add: filter_empty_conv)
    with True show ?thesis by simp
  next
    case False
    with Cons.prems have x: "x \<in> set xs" and "f a \<noteq> f x" by (auto simp: image_iff)
    with Cons show ?thesis by simp
  qed
qed

lemma calls_append:
  "settled w' = settled w @ xs \<Longrightarrow> calls w' p = calls w p @ map snd (filter (\<lambda>e. fst e = p) xs)"
  by (simp add: calls_def)

lemma calls_none: "p \<notin> set (map fst (settled w)) \<Longrightarrow> calls w p = []"
  by (auto simp: calls_def filter_empty_conv)

lemma timeout_fires:
  assumes o: "outstanding w h p k D" and c: "D \<le> now w + d"
  shows "over (advance w d) p"
    and "calls (advance w d) p = [Rejected CommandTimeout]"
    and "map_get (pendingCommands (advance w d)) k = None"
proof -
  let ?T = "\<lparr>due = D, key_timer = k, reject_timer = p\<rparr>"
  let ?due = "filter (\<lambda>e. due (snd e) \<le> now w + d) (timers w)"
  from o have w: "consistent w" and T: "(h, ?T) \<in> set (timers w)"
    and p: "p \<notin> set (map fst (settled w))"
    by (simp_all add: outstanding_def)
  from T c have Td: "(h, ?T) \<in> set ?due" by simp
  from w have "distinct (map (\<lambda>e. reject_timer (snd e)) ?due)"
    by (simp add: consistent_def distinct_map_filter)
  from filter_distinct_image [OF this Td]
  have "filter (\<lambda>e. reject_timer (snd e) = p) ?due = [(h, ?T)]" by simp
  then have "map snd (filter (\<lambda>e. fst e = p)
               (map (\<lambda>e. (reject_timer (snd e), Rejected CommandTimeout)) ?due)) =
             [Rejected CommandTimeout]"
    by (simp add: filter_map comp_def)
  with calls_append [OF advance_fields(3), of w d p] calls_none [OF p]
  show "calls (advance w d) p = [Rejected CommandTimeout]" by simp
  from Td have kd: "k \<in> set (map (\<lambda>e. key_timer (snd e)) ?due)" by force
  have "k \<notin> fst ` set (pendingCommands (advance w d))"
  proof
    assume "k \<in> fst ` set (pendingCommands (advance w d))"
    then obtain x where "x \<in> set (pendingCommands (advance w d))" "fst x = k" by auto
    then have "k \<notin> set (map (\<lambda>e. key_timer (snd e)) ?due)"
      unfolding advance_fields(2) by auto
    with kd show False by contradiction
  qed
  then show "map_get (pendingCommands (advance w d)) k = None"
    by (simp add: map_get_def map_of_eq_None_iff)
  have "p \<notin> set (map (\<lambda>e. reject_timer (snd e)) (timers (advance w d)))"
  proof
    assume "p \<in> set (map (\<lambda>e. reject_timer (snd e)) (timers (advance w d)))"
    then obtain h' t where t: "(h', t) \<in> set (timers w)" "reject_timer t = p"
      "h' \<notin> set (map fst ?due)"
      by (auto simp: advance_fields)
    from consistent_reject_unique [OF w T t(1)] t(2) have "h = h'" by simp
    with Td t(3) show False by force
  qed
  moreover from w T have "p < nextPromise w" unfolding consistent_def by fastforce
  ultimately show "over (advance w d) p"
    using consistent_advance [OF w, of d] by (simp add: over_def advance_fields)
qed

lemma over_same:
  "same_requests w w' \<Longrightarrow> over w' p = over w p \<and> calls w' p = calls w p"
  by (simp add: over_def consistent_same) (simp add: same_requests_def calls_def)

lemma over_sendCommand:
  assumes "over w p"
  shows "over (snd (sendCommand w i command)) p \<and> calls (snd (sendCommand w i command)) p = calls w p"
proof -
  from sendCommand_cases [of w i command] consider
    (failed) e where "sendCommand w i command = (Inl e, w)"
    | (sent) conn where "get w i = Some conn" "readyState w (ws conn) = 1"
    by blast
  then show ?thesis
  proof cases
    case (failed e)
    with assms show ?thesis by simp
  next
    case (sent conn)
    note f = sendCommand_sent [OF sent, of command]
    from assms consistent_sendCommand [of w i command] show ?thesis
      by (auto simp add: over_def f calls_def split: option.splits)
  qed
qed

lemma over_remove:
  assumes "over w p"
  shows "over (remove w j) p \<and> calls (remove w j) p = calls w p"
proof (cases "get w j")
  case None
  with assms show ?thesis by (simp add: remove_absent)
next
  case (Some conn)
  note f = remove_present [OF Some]
  from assms have w: "consistent w" and n: "p < nextPromise w"
    and t: "p \<notin> set (map (\<lambda>e. reject_timer (snd e)) (timers w))"
    by (simp_all add: over_def)
  have "promise (snd e) \<noteq> p" if "e \<in> set (pendingCommands w)" for e
  proof -
    from w that obtain t' where "(timeout (snd e), t') \<in> set (timers w)"
      "reject_timer t' = promise (snd e)"
      unfolding consistent_def by blast
    with t show ?thesis by force
  qed
  then have "filter (\<lambda>e. fst e = p)
          (map (\<lambda>e. (promise (snd e), Rejected ConnectionClosed))
             (filter (\<lambda>e. prefix j (fst e)) (pendingCommands w))) = []"
    by (auto simp: filter_empty_conv)
  with calls_append [OF f(3), of p] have c: "calls (remove w j) p = calls w p" by simp
  from t have "p \<notin> set (map (\<lambda>e. reject_timer (snd e)) (timers (remove w j)))"
    by (auto simp: f)
  with n c consistent_remove [OF w, of j] show ?thesis by (simp add: over_def f)
qed

lemma over_advance:
  assumes "over w p"
  shows "over (advance w d) p \<and> calls (advance w d) p = calls w p"
proof -
  from assms have w: "consistent w" and n: "p < nextPromise w"
    and t: "p \<notin> set (map (\<lambda>e. reject_timer (snd e)) (timers w))"
    by (simp_all add: over_def)
  from t have t': "reject_timer (snd e) \<noteq> p" if "e \<in> set (timers w)" for e
    using that by force
  then have "filter (\<lambda>e. fst e = p)
          (map (\<lambda>e. (reject_timer (snd e), Rejected CommandTimeout))
             (filter (\<lambda>e. due (snd e) \<le> now w + d) (timers w))) = []"
    by (auto simp: filter_empty_conv)
  with calls_append [OF advance_fields(3), of w d p] have c: "calls (advance w d) p = calls w p"
    by simp
  from t have "p \<notin> set (map (\<lambda>e. reject_timer (snd e)) (timers (advance w d)))"
    by (auto simp: advance_fields)
  with n c consistent_advance [OF w, of d] show ?thesis by (simp add: over_def advance_fields)
qed

lemma over_step:
  assumes "over w p"
  shows "over (step w ev) p \<and> calls (step w ev) p = calls w p"
  using assms
  by (cases ev)
     (simp_all add: over_same [OF same_requests_quiet(1)] over_same [OF same_requests_quiet(2)]
        over_same [OF same_requests_quiet(3)] over_same [OF same_requests_quiet(4)]
        over_same [OF same_requests_quiet(5)] over_sendCommand over_remove over_advance)

lemma over_run:
  assumes "over w p"
  shows "over (run w evs) p \<and> calls (run w evs) p = calls w p"
  using assms
proof (induction evs arbitrary: w)
  case Nil
  then show ?case by (simp add: run_def)
next
  case (Cons ev evs)
  from over_step [OF Cons.prems, of ev] Cons.IH [of "step w ev"]
  show ?case by (simp add: run_def)
qed

lemma sendCommand_outstanding:
  assumes "consistent w" "get w i = Some conn" "readyState w (ws conn) = 1"
    and "stringify_error (extra command) = None"
  shows "outstanding (snd (sendCommand w i command)) (nextTimer w) (nextPromise w)
           (fullId i (requestId command)) (now w + 30000)"
proof -
  note f = sendCommand_sent [OF assms(2,3), of command]
  from assms(1) have "nextPromise w \<notin> set (map fst (settled w))"
    unfolding consistent_def by fastforce
  with consistent_sendCommand [OF assms(1), of i command] assms(4) show ?thesis
    by (simp add: outstanding_def f)
qed

text \<open>
  The runs on which the timeout is the end of a request. In every state reached from a
  new store, \<open>sendCommand\<close> of a command that can be written, on a registered connection
  with an open socket, returns a promise and stores the pending entry. As long as less
  than 30000 ms have passed and no \<open>remove\<close> has been called with an id that the key of
  the request starts with, no continuation is called. When the 30000 ms are over the
  promise is rejected with \<open>CommandTimeout\<close> (this is the only call) and the pending
  entry of the request id is gone; a result that arrives afterwards leaves the state
  as it is, and after any further events the single call is still the only one. The
  runs left out are stated after this theorem: a command that cannot be written, and
  a \<open>remove\<close> with an id that the key starts with.
\<close>

theorem timeout_when_not_cancelled:
  assumes "w = run (createConnectionStore t rs) history"
    and "get w i = Some conn" "readyState w (ws conn) = 1"
    and "stringify_error (extra command) = None"
    and "\<forall>ev\<in>set evs. \<not> cancels (fullId i (requestId command)) ev"
    and "elapsed evs < 30000" "30000 \<le> elapsed evs + d"
  shows
    "fst (sendCommand w i command) = Inr (nextPromise w) \<and>
     map_get (pendingCommands (snd (sendCommand w i command))) (fullId i (requestId command)) =
       Some \<lparr>promise = nextPromise w, timeout = nextTimer w\<rparr> \<and>
     calls (run (snd (sendCommand w i command)) evs) (nextPromise w) = [] \<and>
     calls (advance (run (snd (sendCommand w i command)) evs) d) (nextPromise w) =
       [Rejected CommandTimeout] \<and>
     map_get (pendingCommands (advance (run (snd (sendCommand w i command)) evs) d))
       (fullId i (requestId command)) = None \<and>
     handleCommandResult (advance (run (snd (sendCommand w i command)) evs) d) i (requestId command) x =
       advance (run (snd (sendCommand w i command)) evs) d \<and>
     calls (run (advance (run (snd (sendCommand w i command)) evs) d) evs') (nextPromise w) =
       [Rejected CommandTimeout]"
proof -
  let ?w1 = "snd (sendCommand w i command)"
  let ?k = "fullId i (requestId command)"
  let ?p = "nextPromise w"
  from assms(1) have w: "consistent w" by (simp add: consistent_run consistent_new)
  note f = sendCommand_sent [OF assms(2,3), of command]
  note o1 = sendCommand_outstanding [OF w assms(2,3,4)]
  from assms(6) have "now ?w1 + elapsed evs < now w + 30000" by (simp add: f)
  from outstanding_run [OF o1 assms(5) this]
  have o2: "outstanding (run ?w1 evs) (nextTimer w) ?p ?k (now w + 30000)"
    and n2: "now (run ?w1 evs) = now w + elapsed evs"
    by (simp_all add: f)
  from assms(7) n2 have "now w + 30000 \<le> now (run ?w1 evs) + d" by simp
  note t = timeout_fires [OF o2 this]
  from o2 have 3: "calls (run ?w1 evs) ?p = []"
    by (simp add: outstanding_def calls_none)
  from over_run [OF t(1), of evs'] t(2)
  have 7: "calls (run (advance (run ?w1 evs) d) evs') ?p = [Rejected CommandTimeout]" by simp
  have 2: "map_get (pendingCommands ?w1) ?k = Some \<lparr>promise = ?p, timeout = nextTimer w\<rparr>"
    by (simp add: f map_get_map_set)
  from f(1) 2 3 t(2) t(3) 7 show ?thesis
    by (simp add: handleCommandResult_ignored)
qed

text \<open>
  A command that cannot be written: the executor of the promise has armed the timer and
  stored the pending entry when \<open>JSON.stringify\<close> raises, so the promise is rejected at
  once with the \<open>TypeError\<close>, nothing is sent, and the timer and the entry stay.
\<close>

lemma sendCommand_unserializable:
  assumes "get w i = Some conn" "readyState w (ws conn) = 1"
    and "stringify_error (extra command) = Some m"
  shows "fst (sendCommand w i command) = Inr (nextPromise w)"
    and "settled (snd (sendCommand w i command)) =
           settled w @ [(nextPromise w, Rejected (TypeError m))]"
    and "sent (snd (sendCommand w i command)) = sent w"
    and "map_get (pendingCommands (snd (sendCommand w i command))) (fullId i (requestId command)) =
           Some \<lparr>promise = nextPromise w, timeout = nextTimer w\<rparr>"
    and "(nextTimer w, \<lparr>due = now w + 30000, key_timer = fullId i (requestId command),
                        reject_timer = nextPromise w\<rparr>) \<in> set (timers (snd (sendCommand w i command)))"
  using assms by (simp_all add: sendCommand_def get_def Let_def map_get_map_set)

subsection \<open>The scenarios on the code\<close>

lemma store_sent_fields:
  "connections store_sent = [(''c1'', conn_c1)]"
  "pendingCommands store_sent = [(''c1:r1'', \<lparr>promise = 0, timeout = 0\<rparr>)]"
  "timers store_sent = [(0, \<lparr>due = 35000, key_timer = ''c1:r1'', reject_timer = 0\<rparr>)]"
  "settled store_sent = []"
  "now store_sent = 5000"
  "fst (sendCommand (add store_open conn_c1) ''c1'' click_r1) = Inr 0"
  by (simp_all add: store_sent_def sendCommand_def add_def store_open_def createConnectionStore_def
      conn_c1_def click_r1_def map_get_def fullId_def Let_def)

text \<open>
  C1, on the code: the end-to-end scenario. \<open>c1\<close> is registered with an open socket and
  \<open>sendCommand\<close> has stored the pending entry \<open>c1:r1\<close>. The matching result, given to
  \<open>handleCommandResult\<close> directly or through the \<open>command_result\<close> message, leaves the
  state as it is: no continuation is called, the timer stays armed and the entry stays
  in the map (the store object has no property \<open>pendingCommands\<close>). 30000 ms later the
  call is rejected with \<open>CommandTimeout\<close>.
\<close>

theorem handleCommandResult_leaves_pending:
  "fst (sendCommand (add store_open conn_c1) ''c1'' click_r1) = Inr 0 \<and>
   map_get (pendingCommands store_sent) ''c1:r1'' = Some \<lparr>promise = 0, timeout = 0\<rparr> \<and>
   handleCommandResult store_sent ''c1'' ''r1'' result_ok = store_sent \<and>
   snd (handleMessage (\<lparr>connId = ''c1'', ws_handler = 0, tabId_var = Some 7\<rparr>, store_sent) msg_result) =
     store_sent \<and>
   calls (handleCommandResult store_sent ''c1'' ''r1'' result_ok) 0 = [] \<and>
   map fst (timers (handleCommandResult store_sent ''c1'' ''r1'' result_ok)) = [0] \<and>
   map_get (pendingCommands (handleCommandResult store_sent ''c1'' ''r1'' result_ok)) ''c1:r1'' =
     Some \<lparr>promise = 0, timeout = 0\<rparr> \<and>
   calls (advance (handleCommandResult store_sent ''c1'' ''r1'' result_ok) 30000) 0 =
     [Rejected CommandTimeout]"
proof -
  have h: "handleCommandResult store_sent ''c1'' ''r1'' result_ok = store_sent"
    by (simp add: handleCommandResult_def store_pendingCommands_def store_properties_def)
  have m: "snd (handleMessage (\<lparr>connId = ''c1'', ws_handler = 0, tabId_var = Some 7\<rparr>, store_sent)
                 msg_result) = store_sent"
    by (simp add: handleMessage_def bindTab_def msg_result_def truthy_def Let_def h)
  have a: "calls (advance store_sent 30000) 0 = [Rejected CommandTimeout]"
    by (simp add: calls_def advance_fields store_sent_fields)
  have c: "calls store_sent 0 = []"
    by (simp add: calls_def store_sent_fields)
  show ?thesis
    by (simp add: h m a c store_sent_fields map_get_def)
qed

lemma store_prefix_fields:
  "connections store_prefix = [(''c1'', conn_c1), (''c10'', conn_c10)]"
  "pendingCommands store_prefix = [(''c10:r1'', \<lparr>promise = 0, timeout = 0\<rparr>)]"
  "timers store_prefix = [(0, \<lparr>due = 35000, key_timer = ''c10:r1'', reject_timer = 0\<rparr>)]"
  "settled store_prefix = []"
  "now store_prefix = 5000"
  "readyState store_prefix = (\<lambda>_. 1)"
  "sent store_prefix = [(2, click_r1)]"
  by (simp_all add: store_prefix_def sendCommand_def add_def store_open_def createConnectionStore_def
      conn_c1_def conn_c10_def click_r1_def map_get_def fullId_def Let_def)

text \<open>
  C2, on the code: \<open>c1\<close> and \<open>c10\<close> are registered and a command is pending for \<open>c10\<close>
  under the key \<open>c10:r1\<close>. \<open>remove\<close> of \<open>c1\<close> deletes \<open>c1\<close> and keeps \<open>c10\<close> registered, but
  as the key starts with \<open>c1\<close> the request of \<open>c10\<close> is rejected with \<open>ConnectionClosed\<close>,
  its timer is cleared and its entry is deleted.
\<close>

theorem remove_cancels_longer_id:
  "get store_prefix ''c10'' = Some conn_c10 \<and>
   map_get (pendingCommands store_prefix) (fullId ''c10'' ''r1'') = Some \<lparr>promise = 0, timeout = 0\<rparr> \<and>
   get (remove store_prefix ''c1'') ''c1'' = None \<and>
   get (remove store_prefix ''c1'') ''c10'' = Some conn_c10 \<and>
   pendingCommands (remove store_prefix ''c1'') = [] \<and>
   timers (remove store_prefix ''c1'') = [] \<and>
   calls (remove store_prefix ''c1'') 0 = [Rejected ConnectionClosed]"
  by (simp add: remove_def get_def map_get_def map_delete_def store_prefix_fields fullId_def
      calls_def Let_def)

lemma timeout_when_not_cancelled_example:
  "add store_open conn_c1 = run (createConnectionStore 5000 (\<lambda>_. 1)) [Add conn_c1] \<and>
   get (add store_open conn_c1) ''c1'' = Some conn_c1 \<and>
   readyState (add store_open conn_c1) (ws conn_c1) = 1 \<and>
   stringify_error (extra click_r1) = None \<and>
   elapsed waiting_events = 29999 \<and>
   calls (run store_sent waiting_events) 0 = [] \<and>
   calls (advance (run store_sent waiting_events) 1) 0 = [Rejected CommandTimeout] \<and>
   map_get (pendingCommands (advance (run store_sent waiting_events) 1)) ''c1:r1'' = None \<and>
   calls (run (advance (run store_sent waiting_events) 1) late_events) 0 = [Rejected CommandTimeout]"
proof -
  have a: "add store_open conn_c1 = run (createConnectionStore 5000 (\<lambda>_. 1)) [Add conn_c1]"
    by (simp add: run_def store_open_def)
  have b: "get (add store_open conn_c1) ''c1'' = Some conn_c1"
    by (simp add: get_def map_get_def add_def store_open_def createConnectionStore_def conn_c1_def)
  have c: "readyState (add store_open conn_c1) (ws conn_c1) = 1"
    by (simp add: add_def store_open_def createConnectionStore_def)
  have s: "stringify_error (extra click_r1) = None"
    by (simp add: click_r1_def)
  have d: "\<forall>ev\<in>set waiting_events. \<not> cancels (fullId ''c1'' (requestId click_r1)) ev"
    by (simp add: waiting_events_def)
  have e: "elapsed waiting_events = 29999" by (simp add: waiting_events_def)
  have f: "elapsed waiting_events < 30000" "30000 \<le> elapsed waiting_events + 1"
    by (simp_all add: e)
  have g: "nextPromise (add store_open conn_c1) = 0"
    "fullId ''c1'' (requestId click_r1) = ''c1:r1''"
    by (simp_all add: add_def store_open_def createConnectionStore_def fullId_def click_r1_def)
  from timeout_when_not_cancelled [OF a b c s d f, of result_ok late_events]
  have "calls (run store_sent waiting_events) 0 = [] \<and>
   calls (advance (run store_sent waiting_events) 1) 0 = [Rejected CommandTimeout] \<and>
   map_get (pendingCommands (advance (run store_sent waiting_events) 1)) ''c1:r1'' = None \<and>
   calls (run (advance (run store_sent waiting_events) 1) late_events) 0 = [Rejected CommandTimeout]"
    by (simp add: g store_sent_def)
  with a b c s e show ?thesis by blast
qed

text \<open>
  C3, on the code: \<open>c1\<close> and \<open>c10\<close> are registered with open sockets and a command that
  can be written has been sent to \<open>c10\<close> (one frame, pending under \<open>c10:r1\<close>, timer due at
  35000). No result is delivered. \<open>c1\<close> is removed; \<open>c10\<close> stays registered and its socket
  stays open. The call on \<open>c10\<close> is rejected with \<open>ConnectionClosed\<close> at that moment and its
  timer is cleared, so when the 30000 ms are over, and also 30000 ms later, the only
  call made is that one: the call is never rejected with \<open>CommandTimeout\<close>.
\<close>

theorem timeout_lost_when_shorter_id_removed:
  "get store_prefix ''c10'' = Some conn_c10 \<and>
   readyState store_prefix (ws conn_c10) = 1 \<and>
   stringify_error (extra click_r1) = None \<and>
   sent store_prefix = [(ws conn_c10, click_r1)] \<and>
   map_get (pendingCommands store_prefix) ''c10:r1'' = Some \<lparr>promise = 0, timeout = 0\<rparr> \<and>
   map snd (timers store_prefix) = [\<lparr>due = 35000, key_timer = ''c10:r1'', reject_timer = 0\<rparr>] \<and>
   calls store_prefix 0 = [] \<and>
   get (run store_prefix [Remove ''c1'']) ''c10'' = Some conn_c10 \<and>
   readyState (run store_prefix [Remove ''c1'']) (ws conn_c10) = 1 \<and>
   calls (run store_prefix [Remove ''c1'']) 0 = [Rejected ConnectionClosed] \<and>
   timers (run store_prefix [Remove ''c1'']) = [] \<and>
   now (run store_prefix [Remove ''c1'', Advance 30000]) = 35000 \<and>
   calls (run store_prefix [Remove ''c1'', Advance 30000]) 0 = [Rejected ConnectionClosed] \<and>
   calls (run store_prefix [Remove ''c1'', Advance 30000, Advance 30000]) 0 =
     [Rejected ConnectionClosed]"
proof -
  have g: "get store_prefix ''c1'' = Some conn_c1"
    by (simp add: get_def map_get_def store_prefix_fields)
  note r = remove_present [OF g]
  have 1: "timers (remove store_prefix ''c1'') = []"
    and 2: "settled (remove store_prefix ''c1'') = [(0, Rejected ConnectionClosed)]"
    and 3: "now (remove store_prefix ''c1'') = 5000"
    and 4: "connections (remove store_prefix ''c1'') = [(''c10'', conn_c10)]"
    by (simp_all add: r store_prefix_fields map_delete_def)
  have 5: "readyState (remove store_prefix ''c1'') = (\<lambda>_. 1)"
    by (simp add: remove_def get_def map_get_def map_delete_def store_prefix_fields Let_def)
  have 6: "settled (advance (remove store_prefix ''c1'') 30000) = [(0, Rejected ConnectionClosed)]"
    and 7: "timers (advance (remove store_prefix ''c1'') 30000) = []"
    and 8: "now (advance (remove store_prefix ''c1'') 30000) = 35000"
    by (simp_all add: advance_fields 1 2 3)
  have 9: "settled (advance (advance (remove store_prefix ''c1'') 30000) 30000) =
             [(0, Rejected ConnectionClosed)]"
    by (subst advance_fields(3)) (simp add: 6 7)
  show ?thesis
    by (simp add: run_def get_def map_get_def calls_def store_prefix_fields click_r1_def
        conn_c10_def 1 2 4 5 6 8 9)
qed

section \<open>Theorems about the client connection\<close>

lemmas readyState_defs = CONNECTING_def OPEN_def CLOSING_def CLOSED_def

subsection \<open>The status getter\<close>

text \<open>
  C10. The \<open>status\<close> getter never returns \<open>error\<close>: for every socket state it returns
  \<open>disconnected\<close>, \<open>connecting\<close> or \<open>connected\<close>, and it returns \<open>disconnected\<close> when there is
  no socket and when the socket is closing or closed. The error state is seen only in
  the \<open>onStatusChange\<close> notification: the error handler notifies \<open>error\<close> and leaves what
  \<open>status\<close> returns unchanged.
\<close>

theorem status_never_error:
  "status c \<noteq> Error \<and>
   status c \<in> {Disconnected, Connecting, Connected} \<and>
   (ws_gw c = None \<longrightarrow> status c = Disconnected) \<and>
   (ws_gw c = Some CLOSING \<or> ws_gw c = Some CLOSED \<longrightarrow> status c = Disconnected) \<and>
   notifications (onerror c) =
     notifications c @ [OnStatusChange Error, OnError ''WebSocket error''] \<and>
   status (onerror c) = status c"
  by (auto simp: status_def onerror_def readyState_defs split: option.splits)

theorem status_never_error_witness:
  "ws_gw (newGatewayConnection None) = None \<and>
   status (newGatewayConnection None) = Disconnected \<and>
   ws_gw (socket_closes client_connected) = Some CLOSED \<and>
   status (socket_closes client_connected) = Disconnected \<and>
   status (onerror client_connected) = Connected"
proof -
  have a: "ws_gw (newGatewayConnection None) = None"
    by (simp add: newGatewayConnection_def)
  have b: "ws_gw (socket_closes client_connected) = Some CLOSED"
    by (simp add: socket_closes_def onclose_def scheduleReconnect_def client_connected_def
        socket_opens_def onopen_def connect_def newGatewayConnection_def Let_def
        maxReconnectAttempts_def)
  have c: "status client_connected = Connected"
    by (simp add: status_def client_connected_def socket_opens_def onopen_def connect_def
        newGatewayConnection_def Let_def readyState_defs)
  show ?thesis
    using a b c
      status_never_error [of "newGatewayConnection None"]
      status_never_error [of "socket_closes client_connected"]
      status_never_error [of client_connected]
    by simp
qed

subsection \<open>Reconnect scheduling\<close>

lemma first_close:
  assumes "reconnectAttempts c = 0" "config_error c = None" "armed c = []"
  shows "waiting (socket_closes c) 0 \<and> delays (socket_closes c) = delays c @ [1000]"
  using assms
  by (cases "ws_gw c")
     (simp_all add: waiting_def socket_closes_def onclose_def scheduleReconnect_def
        maxReconnectAttempts_def reconnectDelay_def Let_def readyState_defs)

lemma failed_attempt_below:
  assumes "waiting c n" "Suc n < maxReconnectAttempts"
  shows "waiting (failed_attempt c) (Suc n) \<and>
         delays (failed_attempt c) = delays c @ [reconnectDelay * 2 ^ Suc n]"
  using assms
  by (simp add: waiting_def failed_attempt_def timer_expires_def map_get_def map_delete_def
        connect_def socket_errors_def onerror_def socket_closes_def onclose_def
        scheduleReconnect_def Let_def readyState_defs)

lemma failed_attempt_last:
  assumes "waiting c n" "Suc n = maxReconnectAttempts"
  shows "stopped (failed_attempt c) \<and> delays (failed_attempt c) = delays c"
  using assms
  by (simp add: waiting_def stopped_def failed_attempt_def timer_expires_def map_get_def
        map_delete_def connect_def socket_errors_def onerror_def socket_closes_def onclose_def
        scheduleReconnect_def Let_def status_def readyState_defs)

lemma stopped_stays:
  assumes "stopped c"
  shows "failed_attempt c = c"
  using assms
  by (auto simp add: stopped_def failed_attempt_def timer_expires_def map_get_def
      status_def readyState_defs split: option.splits if_splits)

lemma scheduleReconnect_effect:
  "delays (scheduleReconnect c) =
     delays c @ (if reconnectAttempts c < maxReconnectAttempts
                 then [reconnectDelay * 2 ^ reconnectAttempts c] else [])"
  "armed (scheduleReconnect c) =
     armed c @ (if reconnectAttempts c < maxReconnectAttempts
                then [(nextHandle c, reconnectDelay * 2 ^ reconnectAttempts c)] else [])"
  "reconnectAttempts (scheduleReconnect c) =
     (if reconnectAttempts c < maxReconnectAttempts then Suc (reconnectAttempts c)
      else reconnectAttempts c)"
  "length (log_gw (scheduleReconnect c)) = Suc (length (log_gw c))"
  "notifications (scheduleReconnect c) = notifications c"
  "ws_gw (scheduleReconnect c) = ws_gw c"
  by (simp_all add: scheduleReconnect_def Let_def)

lemma after_failures_below:
  assumes "reconnectAttempts c = 0" "config_error c = None" "armed c = []"
  shows "n < maxReconnectAttempts \<Longrightarrow>
         waiting (after_failures n c) n \<and>
         delays (after_failures n c) = delays c @ map (\<lambda>k. reconnectDelay * 2 ^ k) [0..<Suc n]"
proof (induction n)
  case 0
  from first_close [OF assms] show ?case by (simp add: reconnectDelay_def)
next
  case (Suc n)
  then have IH: "waiting (after_failures n c) n"
    "delays (after_failures n c) = delays c @ map (\<lambda>k. reconnectDelay * 2 ^ k) [0..<Suc n]"
    by simp_all
  from failed_attempt_below [OF IH(1) Suc.prems] IH(2)
  show ?case by simp
qed

lemma after_failures_stopped:
  assumes "reconnectAttempts c = 0" "config_error c = None" "armed c = []"
  shows "maxReconnectAttempts \<le> n \<Longrightarrow>
         stopped (after_failures n c) \<and>
         delays (after_failures n c) =
           delays c @ map (\<lambda>k. reconnectDelay * 2 ^ k) [0..<maxReconnectAttempts]"
proof (induction n)
  case 0
  then show ?case by (simp add: maxReconnectAttempts_def)
next
  case (Suc n)
  show ?case
  proof (cases "Suc n = maxReconnectAttempts")
    case True
    then have "n < maxReconnectAttempts" by simp
    from after_failures_below [OF assms this]
    have w: "waiting (after_failures n c) n"
      and d: "delays (after_failures n c) = delays c @ map (\<lambda>k. reconnectDelay * 2 ^ k) [0..<Suc n]"
      by simp_all
    from failed_attempt_last [OF w True]
    have "stopped (after_failures (Suc n) c)"
      and "delays (after_failures (Suc n) c) = delays (after_failures n c)"
      by simp_all
    then show ?thesis by (simp only: d True)
  next
    case False
    with Suc.prems have "maxReconnectAttempts \<le> n" by simp
    from Suc.IH [OF this] stopped_stays [of "after_failures n c"]
    show ?thesis by simp
  qed
qed

lemma backoff_list:
  "map (\<lambda>k. reconnectDelay * 2 ^ k) [0..<maxReconnectAttempts] = [1000, 2000, 4000, 8000, 16000]"
proof -
  have "[0..<5] = [0, 1, 2, 3, 4::nat]" by (simp add: upt_rec)
  then show ?thesis by (simp add: reconnectDelay_def maxReconnectAttempts_def)
qed

lemma scheduleReconnect_iterated:
  assumes "reconnectAttempts c = 0"
  shows "reconnectAttempts ((scheduleReconnect ^^ n) c) = min n maxReconnectAttempts \<and>
         delays ((scheduleReconnect ^^ n) c) =
           delays c @ map (\<lambda>k. reconnectDelay * 2 ^ k) [0..<min n maxReconnectAttempts]"
proof (induction n)
  case 0
  with assms show ?case by simp
next
  case (Suc n)
  show ?case
  proof (cases "n < maxReconnectAttempts")
    case True
    with Suc show ?thesis by (simp add: scheduleReconnect_effect min_def)
  next
    case False
    with Suc show ?thesis by (simp add: scheduleReconnect_effect min_def)
  qed
qed

lemma scheduleReconnect_exhausted:
  assumes "reconnectAttempts c = 0" "maxReconnectAttempts \<le> n"
  shows "armed ((scheduleReconnect ^^ n) c) = armed ((scheduleReconnect ^^ maxReconnectAttempts) c)"
  using assms(2)
proof (induction n rule: dec_induct)
  case base
  show ?case by simp
next
  case (step n)
  from scheduleReconnect_iterated [OF assms(1), of n] step(1)
  have "reconnectAttempts ((scheduleReconnect ^^ n) c) = maxReconnectAttempts" by simp
  with step(3) show ?case by (simp add: scheduleReconnect_effect)
qed

text \<open>
  C5. Starting from attempt counter 0, consecutive calls of \<open>scheduleReconnect\<close> arm
  timers with the delays 1000, 2000, 4000, 8000 and 16000 ms: the call at counter \<open>n\<close>
  arms \<open>1000 * 2 ^ n\<close> and takes the counter to \<open>n + 1\<close>. From counter 5 on a call arms
  nothing: the list of delays, the armed timers and the counter stay as they are. In
  the lifecycle (valid address, no timer armed at the start): the connection closes
  and the automatic attempts fail one after the other; the timers armed are the same
  five, and after them, however many further closes follow, no timer is armed, the
  status reads \<open>disconnected\<close>, and an explicit \<open>connect\<close> starts connecting again.
\<close>

theorem reconnect_backoff:
  assumes "reconnectAttempts c = 0"
  shows "(\<forall>n\<le>5. delays ((scheduleReconnect ^^ n) c) = delays c @ map (\<lambda>k. 1000 * 2 ^ k) [0..<n] \<and>
            reconnectAttempts ((scheduleReconnect ^^ n) c) = n) \<and>
         delays ((scheduleReconnect ^^ 5) c) = delays c @ [1000, 2000, 4000, 8000, 16000] \<and>
         (\<forall>n\<ge>5. delays ((scheduleReconnect ^^ n) c) = delays c @ [1000, 2000, 4000, 8000, 16000] \<and>
            armed ((scheduleReconnect ^^ n) c) = armed ((scheduleReconnect ^^ 5) c) \<and>
            reconnectAttempts ((scheduleReconnect ^^ n) c) = 5) \<and>
         (config_error c = None \<and> armed c = [] \<longrightarrow>
            (\<forall>n<5. delays (after_failures n c) = delays c @ map (\<lambda>k. 1000 * 2 ^ k) [0..<Suc n] \<and>
               map snd (armed (after_failures n c)) = [1000 * 2 ^ n] \<and>
               reconnectAttempts (after_failures n c) = Suc n) \<and>
            delays (after_failures 4 c) = delays c @ [1000, 2000, 4000, 8000, 16000] \<and>
            (\<forall>n\<ge>5. delays (after_failures n c) = delays c @ [1000, 2000, 4000, 8000, 16000] \<and>
               armed (after_failures n c) = [] \<and>
               reconnectAttempts (after_failures n c) = 5 \<and>
               status (after_failures n c) = Disconnected \<and>
               armed (scheduleReconnect (after_failures n c)) = [] \<and>
               delays (scheduleReconnect (after_failures n c)) = delays (after_failures n c) \<and>
               status (connect (after_failures n c)) = Connecting))"
proof -
  have m: "maxReconnectAttempts = 5" by (simp add: maxReconnectAttempts_def)
  note it = scheduleReconnect_iterated [OF assms, unfolded m]
  have 1: "\<forall>n\<le>5. delays ((scheduleReconnect ^^ n) c) = delays c @ map (\<lambda>k. 1000 * 2 ^ k) [0..<n] \<and>
            reconnectAttempts ((scheduleReconnect ^^ n) c) = n"
  proof (intro allI impI)
    fix n :: nat
    assume "n \<le> 5"
    with it [of n] show "delays ((scheduleReconnect ^^ n) c) = delays c @ map (\<lambda>k. 1000 * 2 ^ k) [0..<n] \<and>
            reconnectAttempts ((scheduleReconnect ^^ n) c) = n"
      by (simp add: min_def reconnectDelay_def)
  qed
  have 3: "\<forall>n\<ge>5. delays ((scheduleReconnect ^^ n) c) = delays c @ [1000, 2000, 4000, 8000, 16000] \<and>
            armed ((scheduleReconnect ^^ n) c) = armed ((scheduleReconnect ^^ 5) c) \<and>
            reconnectAttempts ((scheduleReconnect ^^ n) c) = 5"
  proof (intro allI impI)
    fix n :: nat
    assume n: "5 \<le> n"
    with it [of n] backoff_list scheduleReconnect_exhausted [OF assms, of n]
    show "delays ((scheduleReconnect ^^ n) c) = delays c @ [1000, 2000, 4000, 8000, 16000] \<and>
            armed ((scheduleReconnect ^^ n) c) = armed ((scheduleReconnect ^^ 5) c) \<and>
            reconnectAttempts ((scheduleReconnect ^^ n) c) = 5"
      by (simp add: min_def m)
  qed
  from 3 have 2: "delays ((scheduleReconnect ^^ 5) c) = delays c @ [1000, 2000, 4000, 8000, 16000]"
    by blast
  have 4: "(\<forall>n<5. delays (after_failures n c) = delays c @ map (\<lambda>k. 1000 * 2 ^ k) [0..<Suc n] \<and>
               map snd (armed (after_failures n c)) = [1000 * 2 ^ n] \<and>
               reconnectAttempts (after_failures n c) = Suc n) \<and>
            delays (after_failures 4 c) = delays c @ [1000, 2000, 4000, 8000, 16000] \<and>
            (\<forall>n\<ge>5. delays (after_failures n c) = delays c @ [1000, 2000, 4000, 8000, 16000] \<and>
               armed (after_failures n c) = [] \<and>
               reconnectAttempts (after_failures n c) = 5 \<and>
               status (after_failures n c) = Disconnected \<and>
               armed (scheduleReconnect (after_failures n c)) = [] \<and>
               delays (scheduleReconnect (after_failures n c)) = delays (after_failures n c) \<and>
               status (connect (after_failures n c)) = Connecting)"
    if c: "config_error c = None" "armed c = []"
  proof (intro conjI allI impI)
    fix n :: nat
    assume "n < 5"
    then have n: "n < maxReconnectAttempts" by (simp add: m)
    from after_failures_below [OF assms c n]
    show "delays (after_failures n c) = delays c @ map (\<lambda>k. 1000 * 2 ^ k) [0..<Suc n]"
      and "map snd (armed (after_failures n c)) = [1000 * 2 ^ n]"
      and "reconnectAttempts (after_failures n c) = Suc n"
      by (simp_all add: waiting_def reconnectDelay_def)
  next
    have "(4::nat) < maxReconnectAttempts" by (simp add: m)
    from after_failures_below [OF assms c this] backoff_list
    show "delays (after_failures 4 c) = delays c @ [1000, 2000, 4000, 8000, 16000]"
      by (simp add: m)
  next
    fix n :: nat
    assume "5 \<le> n"
    then have n: "maxReconnectAttempts \<le> n" by (simp add: m)
    note s = after_failures_stopped [OF assms c n]
    from s backoff_list
    show "delays (after_failures n c) = delays c @ [1000, 2000, 4000, 8000, 16000]" by simp
    from s show "armed (after_failures n c) = []" by (simp add: stopped_def)
    from s show "reconnectAttempts (after_failures n c) = 5"
      by (simp add: stopped_def m)
    from s show "status (after_failures n c) = Disconnected" by (simp add: stopped_def)
    from s show "armed (scheduleReconnect (after_failures n c)) = []"
      by (simp add: stopped_def scheduleReconnect_effect)
    from s show "delays (scheduleReconnect (after_failures n c)) = delays (after_failures n c)"
      by (simp add: stopped_def scheduleReconnect_effect)
    from s show "status (connect (after_failures n c)) = Connecting"
      by (auto simp add: stopped_def connect_def status_def readyState_defs Let_def
          split: option.splits if_splits)
  qed
  from 1 2 3 4 show ?thesis by blast
qed

theorem reconnect_backoff_witness:
  "reconnectAttempts client_connected = 0 \<and> config_error client_connected = None \<and>
   armed client_connected = [] \<and> (3::nat) \<le> 5 \<and> (2::nat) < 5 \<and> (5::nat) \<le> 7 \<and>
   delays ((scheduleReconnect ^^ 3) client_connected) = [1000, 2000, 4000] \<and>
   delays ((scheduleReconnect ^^ 7) client_connected) = [1000, 2000, 4000, 8000, 16000] \<and>
   delays (after_failures 2 client_connected) = [1000, 2000, 4000] \<and>
   map snd (armed (after_failures 2 client_connected)) = [4000] \<and>
   delays (after_failures 4 client_connected) = [1000, 2000, 4000, 8000, 16000] \<and>
   delays (after_failures 7 client_connected) = [1000, 2000, 4000, 8000, 16000] \<and>
   armed (after_failures 7 client_connected) = [] \<and>
   status (after_failures 7 client_connected) = Disconnected"
proof -
  have a: "reconnectAttempts client_connected = 0"
    and b: "config_error client_connected = None \<and> armed client_connected = []"
    and d: "delays client_connected = []"
    by (simp_all add: client_connected_def socket_opens_def onopen_def connect_def
        newGatewayConnection_def Let_def readyState_defs)
  note t = reconnect_backoff [OF a]
  have le: "(3::nat) \<le> 5" and lt: "(2::nat) < 5" and ge: "(5::nat) \<le> 7" by simp_all
  from t le have u:
    "delays ((scheduleReconnect ^^ 3) client_connected) =
       delays client_connected @ map (\<lambda>k. 1000 * 2 ^ k) [0..<3]"
    by blast
  from t ge have v:
    "delays ((scheduleReconnect ^^ 7) client_connected) =
       delays client_connected @ [1000, 2000, 4000, 8000, 16000]"
    by blast
  from t b lt have x:
    "delays (after_failures 2 client_connected) =
       delays client_connected @ map (\<lambda>k. 1000 * 2 ^ k) [0..<Suc 2] \<and>
     map snd (armed (after_failures 2 client_connected)) = [1000 * 2 ^ 2]"
    by blast
  from t b ge have y:
    "delays (after_failures 7 client_connected) =
       delays client_connected @ [1000, 2000, 4000, 8000, 16000] \<and>
     armed (after_failures 7 client_connected) = [] \<and>
     status (after_failures 7 client_connected) = Disconnected"
    by blast
  from t b have z:
    "delays (after_failures 4 client_connected) =
       delays client_connected @ [1000, 2000, 4000, 8000, 16000]"
    by blast
  have e: "[0..<3] = [0, 1, 2::nat]" by (simp add: upt_rec)
  show ?thesis
    using a b u v x y z by (simp add: d e)
qed

text \<open>
  C6. The socket error handler only notifies the caller (status \<open>error\<close>, then the
  error): it leaves the attempt counter, the reconnect timer, the armed timers and the
  console untouched. Neither it nor \<open>onopen\<close>, \<open>connect\<close>, \<open>disconnect\<close> or the
  callback of an expired timer calls \<open>setTimeout\<close>; only the close handler schedules. An error followed by its close runs
  \<open>scheduleReconnect\<close> once (one console line): one timer is armed and the counter goes
  up by one when the counter is below 5, and nothing is armed when it is not.
\<close>

theorem error_arms_nothing:
  "reconnectAttempts (socket_errors c) = reconnectAttempts c \<and>
   reconnectTimer (socket_errors c) = reconnectTimer c \<and>
   armed (socket_errors c) = armed c \<and>
   delays (socket_errors c) = delays c \<and>
   log_gw (socket_errors c) = log_gw c \<and>
   notifications (socket_errors c) =
     notifications c @ [OnStatusChange Error, OnError ''WebSocket error''] \<and>
   delays (onopen c) = delays c \<and> delays (connect c) = delays c \<and>
   delays (disconnect c) = delays c \<and> delays (timer_expires h c) = delays c \<and>
   delays (socket_closes (socket_errors c)) =
     delays c @ (if reconnectAttempts c < maxReconnectAttempts
                 then [reconnectDelay * 2 ^ reconnectAttempts c] else []) \<and>
   armed (socket_closes (socket_errors c)) =
     armed c @ (if reconnectAttempts c < maxReconnectAttempts
                then [(nextHandle c, reconnectDelay * 2 ^ reconnectAttempts c)] else []) \<and>
   reconnectAttempts (socket_closes (socket_errors c)) =
     (if reconnectAttempts c < maxReconnectAttempts then Suc (reconnectAttempts c)
      else reconnectAttempts c) \<and>
   length (log_gw (socket_closes (socket_errors c))) = Suc (length (log_gw c)) \<and>
   notifications (socket_closes (socket_errors c)) =
     notifications c @ [OnStatusChange Error, OnError ''WebSocket error'', OnStatusChange Disconnected]"
proof -
  have e: "socket_errors c =
      c\<lparr>notifications := notifications c @ [OnStatusChange Error, OnError ''WebSocket error'']\<rparr>"
    by (simp add: socket_errors_def onerror_def)
  have 1: "delays (onopen c) = delays c" by (simp add: onopen_def)
  have 2: "delays (connect c) = delays c"
    by (simp add: connect_def Let_def split: option.splits)
  have 3: "delays (disconnect c) = delays c"
    by (simp add: disconnect_def Let_def split: option.splits)
  have 4: "delays (timer_expires h c) = delays c"
    by (simp add: timer_expires_def connect_def Let_def split: option.splits)
  show ?thesis
    by (simp add: e 1 2 3 4 socket_closes_def onclose_def scheduleReconnect_effect)
qed

theorem error_arms_nothing_witness:
  "delays (socket_errors (client_attempts 3)) = [] \<and>
   delays (socket_closes (socket_errors (client_attempts 3))) = [8000] \<and>
   reconnectAttempts (socket_closes (socket_errors (client_attempts 3))) = 4 \<and>
   delays (socket_closes (socket_errors (client_attempts 5))) = []"
proof -
  have a: "reconnectAttempts (client_attempts 3) = 3" "reconnectAttempts (client_attempts 5) = 5"
    "delays (client_attempts 3) = []" "delays (client_attempts 5) = []"
    by (simp_all add: client_attempts_def client_connected_def socket_opens_def onopen_def
        connect_def newGatewayConnection_def Let_def readyState_defs)
  show ?thesis
    using a error_arms_nothing [of "client_attempts 3"] error_arms_nothing [of "client_attempts 5"]
    by (simp add: maxReconnectAttempts_def reconnectDelay_def)
qed

end
